theory Spec2Isabelle
  imports Complex_Main
begin

section \<open>JavaScript numbers\<close>

text \<open>
  A JavaScript Number is an IEEE 754 binary64 value. \<open>Fin q\<close> is the finite double whose
  exact value is the rational \<open>q\<close>. The two zeros are not told apart: every operation the
  modelled code applies (\<^verbatim>\<open>toFixed\<close>, \<^verbatim>\<open>Math.floor\<close>, comparison, \<^verbatim>\<open>||\<close>, sum, product,
  division by the literal 100) gives the same result on \<open>-0\<close> and \<open>+0\<close>.
\<close>

datatype number = NaN | PosInf | NegInf | Fin rat

definition isNaN :: "number \<Rightarrow> bool" where
  "isNaN v = (v = NaN)"

subsection \<open>Rounding to the nearest double\<close>

definition pow2 :: "int \<Rightarrow> rat" where
  "pow2 e = (if 0 \<le> e then 2 ^ nat e else 1 / 2 ^ nat (- e))"

text \<open>The binary exponent \<open>\<lfloor>log\<^sub>2 x\<rfloor>\<close> of a positive rational, by halving or doubling.\<close>

function ilog2_up :: "rat \<Rightarrow> nat" where
  "ilog2_up x = (if 2 \<le> x then Suc (ilog2_up (x / 2)) else 0)"
  by pat_completeness auto
termination
proof (relation "measure (\<lambda>x. nat \<lfloor>x\<rfloor>)")
  show "wf (measure (\<lambda>x::rat. nat \<lfloor>x\<rfloor>))" by simp
next
  fix x :: rat
  assume "2 \<le> x"
  then have "x / 2 \<le> x - 1" by simp
  then have "\<lfloor>x / 2\<rfloor> \<le> \<lfloor>x - 1\<rfloor>" by (rule floor_mono)
  moreover have "0 < \<lfloor>x\<rfloor>" using \<open>2 \<le> x\<close> by linarith
  ultimately show "(x / 2, x) \<in> measure (\<lambda>x. nat \<lfloor>x\<rfloor>)" by simp
qed

function ilog2_down :: "rat \<Rightarrow> nat" where
  "ilog2_down x = (if 0 < x \<and> x < 1 then Suc (ilog2_down (x * 2)) else 0)"
  by pat_completeness auto
termination
proof (relation "measure (\<lambda>x. nat \<lceil>1 / x\<rceil>)")
  show "wf (measure (\<lambda>x::rat. nat \<lceil>1 / x\<rceil>))" by simp
next
  fix x :: rat
  assume a: "0 < x \<and> x < 1"
  then have "1 < 1 / x" by simp
  then have c: "2 \<le> \<lceil>1 / x\<rceil>" by linarith
  have "1 / (x * 2) = (1 / x) / 2" by simp
  also have "\<dots> \<le> of_int \<lceil>1 / x\<rceil> / 2" by (simp add: divide_right_mono)
  finally have "\<lceil>1 / (x * 2)\<rceil> \<le> \<lceil>(of_int \<lceil>1 / x\<rceil> :: rat) / 2\<rceil>" by (rule ceiling_mono)
  also have "\<dots> < \<lceil>1 / x\<rceil>" using c by linarith
  finally show "(x * 2, x) \<in> measure (\<lambda>x. nat \<lceil>1 / x\<rceil>)" using c a by simp
qed

declare ilog2_up.simps [simp del] ilog2_down.simps [simp del]

definition ilog2 :: "rat \<Rightarrow> int" where
  "ilog2 x = (if 1 \<le> x then int (ilog2_up x) else - int (ilog2_down x))"

definition round_half_even :: "rat \<Rightarrow> int" where
  "round_half_even x =
     (let f = \<lfloor>x\<rfloor>; r = x - of_int f
      in if r < 1 / 2 then f else if 1 / 2 < r then f + 1 else if even f then f else f + 1)"

text \<open>
  \<open>fl x\<close> is the double nearest to the real \<open>x\<close>, ties to the even significand: 53 bits
  of significand, least exponent \<open>-1022\<close> (below it the subnormal spacing \<open>2\<^sup>-\<^sup>1\<^sup>0\<^sup>7\<^sup>4\<close>),
  overflow to an infinity from \<open>2\<^sup>1\<^sup>0\<^sup>2\<^sup>4\<close> on. It is the value of a decimal literal of the
  source and the rounding of every arithmetic operation.
\<close>

definition fl :: "rat \<Rightarrow> number" where
  "fl x =
     (if x = 0 then Fin 0
      else
        let e = max (ilog2 \<bar>x\<bar>) (- 1022);
            u = pow2 (e - 52);
            y = of_int (round_half_even (x / u)) * u
        in if pow2 1024 \<le> \<bar>y\<bar> then (if 0 < x then PosInf else NegInf) else Fin y)"

subsection \<open>Arithmetic and comparison\<close>

definition num_neg :: "number \<Rightarrow> number" where
  "num_neg v = (case v of NaN \<Rightarrow> NaN | PosInf \<Rightarrow> NegInf | NegInf \<Rightarrow> PosInf | Fin a \<Rightarrow> Fin (- a))"

fun num_add :: "number \<Rightarrow> number \<Rightarrow> number" where
  "num_add (Fin a) (Fin b) = fl (a + b)"
| "num_add NaN _ = NaN"
| "num_add _ NaN = NaN"
| "num_add PosInf NegInf = NaN"
| "num_add NegInf PosInf = NaN"
| "num_add PosInf _ = PosInf"
| "num_add NegInf _ = NegInf"
| "num_add _ PosInf = PosInf"
| "num_add _ NegInf = NegInf"

fun num_mul :: "number \<Rightarrow> number \<Rightarrow> number" where
  "num_mul (Fin a) (Fin b) = fl (a * b)"
| "num_mul NaN _ = NaN"
| "num_mul _ NaN = NaN"
| "num_mul (Fin a) v = (if a = 0 then NaN else if 0 < a then v else num_neg v)"
| "num_mul v (Fin b) = (if b = 0 then NaN else if 0 < b then v else num_neg v)"
| "num_mul PosInf v = v"
| "num_mul NegInf v = num_neg v"

text \<open>Division; a zero divisor is taken as \<open>+0\<close> (the code divides by the literal 100 only).\<close>

fun num_div :: "number \<Rightarrow> number \<Rightarrow> number" where
  "num_div (Fin a) (Fin b) =
     (if b = 0 then (if a = 0 then NaN else if 0 < a then PosInf else NegInf) else fl (a / b))"
| "num_div NaN _ = NaN"
| "num_div _ NaN = NaN"
| "num_div (Fin a) _ = Fin 0"
| "num_div v (Fin b) = (if 0 \<le> b then v else num_neg v)"
| "num_div _ _ = NaN"

definition num_floor :: "number \<Rightarrow> number" where
  "num_floor v = (case v of Fin a \<Rightarrow> Fin (of_int \<lfloor>a\<rfloor>) | _ \<Rightarrow> v)"

fun num_less :: "number \<Rightarrow> number \<Rightarrow> bool" where
  "num_less (Fin a) (Fin b) = (a < b)"
| "num_less NaN _ = False"
| "num_less _ NaN = False"
| "num_less _ NegInf = False"
| "num_less PosInf _ = False"
| "num_less _ _ = True"

definition num_le :: "number \<Rightarrow> number \<Rightarrow> bool" where
  "num_le a b = (num_less a b \<or> (a = b \<and> a \<noteq> NaN))"

text \<open>\<^verbatim>\<open>v || 0\<close> on a value that is a number, \<^verbatim>\<open>null\<close> or \<^verbatim>\<open>undefined\<close> (\<open>None\<close>).\<close>

definition or_zero :: "number option \<Rightarrow> number" where
  "or_zero v = (case v of None \<Rightarrow> Fin 0 | Some n \<Rightarrow> if n = NaN \<or> n = Fin 0 then Fin 0 else n)"

section \<open>Amount formatting\<close>

subsection \<open>Digits\<close>

definition digit_char :: "nat \<Rightarrow> char" where
  "digit_char d = ''0123456789'' ! d"

text \<open>The decimal representation of a natural number, with no leading zero; \<open>''0''\<close> for 0.\<close>

fun dec_digits :: "nat \<Rightarrow> string" where
  "dec_digits n = (if n < 10 then [digit_char n] else dec_digits (n div 10) @ [digit_char (n mod 10)])"

declare dec_digits.simps [simp del]

subsection \<open>\<^verbatim>\<open>Number.prototype.toString\<close> from \<open>10\<^sup>2\<^sup>1\<close> on\<close>

text \<open>
  For a value from \<open>10\<^sup>2\<^sup>1\<close> on, \<^verbatim>\<open>toString\<close> gives the exponent form of the shortest
  digit string \<open>s\<close> (with \<open>k\<close> digits) and the \<open>n\<close> for which \<open>s \<times> 10\<^sup>n\<^sup>-\<^sup>k\<close> rounds to the
  double, the closest one to the double when several have that length (ECMAScript,
  Number::toString, step 5 and note 2, as V8 implements it). Seventeen digits always
  suffice for a double; the last alternative of \<open>shortest_digits\<close> is reached only on a
  rational that is not a double.
\<close>

definition candidates :: "rat \<Rightarrow> nat \<Rightarrow> (nat \<times> nat) list" where
  "candidates x k =
     (let N = length (dec_digits (nat \<lfloor>x\<rfloor>));
          s0 = nat \<lfloor>x / 10 ^ (N - k)\<rfloor>
      in filter (\<lambda>(s, n). 10 ^ (k - 1) \<le> s \<and> s < 10 ^ k \<and> fl (of_nat s * 10 ^ (n - k)) = Fin x)
           [(s0, N), (s0 + 1, N), (10 ^ (k - 1), N + 1)])"

definition distance :: "rat \<Rightarrow> nat \<Rightarrow> nat \<times> nat \<Rightarrow> rat" where
  "distance x k c = \<bar>of_nat (fst c) * 10 ^ (snd c - k) - x\<bar>"

fun closest :: "rat \<Rightarrow> nat \<Rightarrow> (nat \<times> nat) list \<Rightarrow> (nat \<times> nat) option" where
  "closest x k [] = None"
| "closest x k (c # cs) =
     (case closest x k cs of
        None \<Rightarrow> Some c
      | Some d \<Rightarrow>
          if distance x k c < distance x k d \<or> (distance x k c = distance x k d \<and> even (fst c))
          then Some c else Some d)"

fun shortest_digits :: "rat \<Rightarrow> nat \<Rightarrow> nat \<Rightarrow> nat \<times> nat" where
  "shortest_digits x k 0 = (nat \<lfloor>x\<rfloor>, length (dec_digits (nat \<lfloor>x\<rfloor>)))"
| "shortest_digits x k (Suc fuel) =
     (case closest x k (candidates x k) of
        Some c \<Rightarrow> c
      | None \<Rightarrow> shortest_digits x (Suc k) fuel)"

definition exponent_form :: "nat \<times> nat \<Rightarrow> string" where
  "exponent_form c =
     (let ds = dec_digits (fst c)
      in (if length ds = 1 then ds else take 1 ds @ ''.'' @ drop 1 ds) @ ''e+'' @
         dec_digits (snd c - 1))"

definition numberToString :: "rat \<Rightarrow> string" where
  "numberToString x = exponent_form (shortest_digits x 1 17)"

subsection \<open>\<^verbatim>\<open>Number.prototype.toFixed\<close>\<close>

text \<open>
  ECMAScript, Number.prototype.toFixed (\<open>f\<close> fraction digits, \<open>0 \<le> f \<le> 100\<close>; the code
  passes 8 and 2). Step 11.a: the integer \<open>n\<close> for which \<open>n / 10\<^sup>f - x\<close> is as close to zero
  as possible, the larger one when there are two.
\<close>

definition round_scaled :: "nat \<Rightarrow> rat \<Rightarrow> nat" where
  "round_scaled f x = nat \<lfloor>x * 10 ^ f + 1 / 2\<rfloor>"

text \<open>Step 11.c.ii: left-pad with zeros to \<open>f + 1\<close> digits.\<close>

definition pad_zeros :: "nat \<Rightarrow> string \<Rightarrow> string" where
  "pad_zeros f m = (if length m \<le> f then replicate (f + 1 - length m) (CHR ''0'') @ m else m)"

text \<open>Steps 11.c.iii to 11.c.v: the point before the last \<open>f\<close> digits.\<close>

definition insert_point :: "nat \<Rightarrow> string \<Rightarrow> string" where
  "insert_point f m =
     (if f = 0 then m
      else take (length (pad_zeros f m) - f) (pad_zeros f m) @ ''.'' @
           drop (length (pad_zeros f m) - f) (pad_zeros f m))"

definition toFixed :: "nat \<Rightarrow> number \<Rightarrow> string" where
  "toFixed f v =
     (case v of
        NaN \<Rightarrow> ''NaN''
      | PosInf \<Rightarrow> ''Infinity''
      | NegInf \<Rightarrow> ''-Infinity''
      | Fin x \<Rightarrow>
          (if x < 0 then ''-'' else []) @
          (if 10 ^ 21 \<le> \<bar>x\<bar> then numberToString \<bar>x\<bar>
           else insert_point f (dec_digits (round_scaled f \<bar>x\<bar>))))"

subsection \<open>The formatters of \<^verbatim>\<open>index.js\<close>\<close>

text \<open>\<^verbatim>\<open>s.replace(/0+$/, '')\<close> and \<^verbatim>\<open>s.replace(/\.$/, '')\<close>.\<close>

definition strip_trailing_zeros :: "string \<Rightarrow> string" where
  "strip_trailing_zeros s = rev (dropWhile (\<lambda>c. c = CHR ''0'') (rev s))"

definition strip_trailing_dot :: "string \<Rightarrow> string" where
  "strip_trailing_dot s = (if s \<noteq> [] \<and> last s = CHR ''.'' then butlast s else s)"

text \<open>
  \<^verbatim>\<open>PaymentQueue.formatCoinAmount(amount)\<close>, the text of the amount in every transfer request.
  The argument is a Number already (\<^verbatim>\<open>Number(amount)\<close> is the identity on it).
\<close>

definition formatCoinAmount :: "number \<Rightarrow> string" where
  "formatCoinAmount amount =
     (let num = amount
      in if isNaN num then ''0.00000000''
         else
           let formatted = toFixed 8 num
           in if CHR ''.'' \<in> set formatted
              then strip_trailing_dot (strip_trailing_zeros formatted)
              else formatted)"

text \<open>\<^verbatim>\<open>toApiFormat(amount)\<close>.\<close>

definition toApiFormat :: "number \<Rightarrow> string" where
  "toApiFormat amount =
     (let num = amount
      in if isNaN num then ''0.00000000''
         else
           let formatted = toFixed 8 num
           in if 9 \<le> length formatted \<and> drop (length formatted - 9) formatted = ''.00000000''
              then take (length formatted - 9) formatted
              else strip_trailing_dot (strip_trailing_zeros formatted))"

text \<open>\<^verbatim>\<open>truncateDollar(amount)\<close>: \<^verbatim>\<open>Math.floor(num * 100) / 100\<close>.\<close>

definition truncateDollar :: "number \<Rightarrow> number" where
  "truncateDollar amount =
     (let num = amount
      in if isNaN num then Fin 0
         else num_div (num_floor (num_mul num (Fin 100))) (Fin 100))"

text \<open>
  The value a decimal text denotes: an optional minus sign, digits, and optionally a
  point followed by digits.
\<close>

definition is_digit :: "char \<Rightarrow> bool" where
  "is_digit c = (c \<in> set ''0123456789'')"

definition digit_val :: "char \<Rightarrow> nat" where
  "digit_val c = length (takeWhile (\<lambda>d. d \<noteq> c) ''0123456789'')"

definition nat_of_digits :: "string \<Rightarrow> nat" where
  "nat_of_digits ds = foldl (\<lambda>a c. a * 10 + digit_val c) 0 ds"

definition unsigned_value :: "string \<Rightarrow> rat option" where
  "unsigned_value t =
     (let ip = takeWhile (\<lambda>c. c \<noteq> CHR ''.'') t;
          rest = dropWhile (\<lambda>c. c \<noteq> CHR ''.'') t
      in if ip = [] \<or> \<not> list_all is_digit ip then None
         else if rest = [] then Some (of_nat (nat_of_digits ip))
         else if tl rest = [] \<or> \<not> list_all is_digit (tl rest) then None
         else Some (of_nat (nat_of_digits ip) +
                    of_nat (nat_of_digits (tl rest)) / 10 ^ length (tl rest)))"

definition decimal_value :: "string \<Rightarrow> rat option" where
  "decimal_value s =
     (case s of
        [] \<Rightarrow> None
      | c # t \<Rightarrow> if c = CHR ''-'' then map_option uminus (unsigned_value t)
                 else unsigned_value s)"

section \<open>Card masking\<close>

text \<open>
  \<^verbatim>\<open>maskCardId(cardId)\<close>. A JavaScript string is a sequence of code units; \<open>None\<close> stands for
  \<^verbatim>\<open>null\<close> and \<^verbatim>\<open>undefined\<close>. The empty string is falsy, so \<^verbatim>\<open>!cardId\<close> holds of it too.
\<close>

definition maskCardId :: "string option \<Rightarrow> string" where
  "maskCardId cardId =
     (case cardId of
        None \<Rightarrow> ''###''
      | Some s \<Rightarrow>
          if s = [] \<or> length s < 3 then ''###''
          else take 3 s @ replicate (nat (max 0 (int (length s) - 3))) (CHR ''#''))"

section \<open>The payment queue\<close>

subsection \<open>Jobs, requests and results\<close>

text \<open>
  The payload of a queued item: \<^verbatim>\<open>{fromCard, toId, amount}\<close> or
  \<^verbatim>\<open>{fromCard, toCard, amount}\<close>; a property the object lacks reads as \<^verbatim>\<open>undefined\<close>
  (\<open>None\<close>).
\<close>

record transfer_payload =
  fromCard :: string
  toId :: "string option"
  toCard :: "string option"
  amount :: number

text \<open>The body of the POST sent to the settlement service, by endpoint.\<close>

datatype request =
    TransferCard string "string option" string
  | CardPay string "string option" string

text \<open>\<^verbatim>\<open>response.data\<close> of the service, and how \<^verbatim>\<open>axios.post\<close> settles.\<close>

record response_data =
  resp_success :: bool
  resp_txId :: string
  resp_date :: string
  resp_error :: "string option"

datatype axios_outcome = Rejected string | Resolved "response_data option"

text \<open>The object \<^verbatim>\<open>{success: true, txId, date}\<close> a transfer returns.\<close>

record transfer_result =
  txId :: string
  date :: string

datatype error =
    UnknownJobKind string
  | SettlementFailed string
  | RequestFailed string
  | ContinuationThrew string
  | DatabaseError string

datatype job_status = pending | processing | completed | failed

text \<open>
  A continuation is caller code: it changes the caller's world \<open>'w\<close> and then returns or
  throws.
\<close>

datatype 'w completion = Returns 'w | Throws string 'w

record 'w item =
  guildId :: string
  userId :: string
  type :: string
  payload :: transfer_payload
  onSuccess :: "(transfer_result \<Rightarrow> 'w \<Rightarrow> 'w completion) option"
  onError :: "(error \<Rightarrow> 'w \<Rightarrow> 'w completion) option"
  id' :: string
  createdAt :: nat
  status :: job_status

subsection \<open>The queue table\<close>

text \<open>
  A row of the table \<^verbatim>\<open>queue\<close>: \<^verbatim>\<open>id INTEGER PRIMARY KEY AUTOINCREMENT\<close>, the submitted
  fields, \<^verbatim>\<open>status\<close>, and whether \<^verbatim>\<open>processed_at\<close> has been set.
\<close>

record queue_row =
  q_id :: nat
  q_guild_id :: string
  q_user_id :: string
  q_type :: string
  q_payload :: transfer_payload
  q_status :: job_status
  q_processed_at :: bool

definition next_id :: "queue_row list \<Rightarrow> nat" where
  "next_id rows = Suc (fold max (map q_id rows) 0)"

text \<open>
  \<^verbatim>\<open>INSERT INTO queue (guild_id, user_id, type, payload, status) VALUES (?, ?, ?, ?, 'pending')\<close>
\<close>

definition insert_row :: "'w item \<Rightarrow> queue_row list \<Rightarrow> queue_row list" where
  "insert_row item rows =
     rows @ [\<lparr>q_id = next_id rows, q_guild_id = guildId item, q_user_id = userId item,
              q_type = type item, q_payload = payload item, q_status = pending,
              q_processed_at = False\<rparr>]"

text \<open>
  \<^verbatim>\<open>WHERE id = ?\<close> with a text parameter against the integer key. SQLite first tries to
  read the text as a number: white space, a sign, digits with an optional point and more
  digits, an optional exponent (\<^verbatim>\<open>e\<close> or \<^verbatim>\<open>E\<close>, a sign, digits), white space. The
  text is a numeric literal when this consumes all of it, the significand has a digit,
  and an exponent has one. The functions below give what is left of the text after each
  part.
\<close>

definition is_space :: "char \<Rightarrow> bool" where
  "is_space c = (c \<in> set [CHR '' '', CHR 0x09, CHR 0x0A, CHR 0x0B, CHR 0x0C, CHR 0x0D])"

definition negative :: "string \<Rightarrow> bool" where
  "negative s = (case s of [] \<Rightarrow> False | c # r \<Rightarrow> c = CHR ''-'')"

definition after_sign :: "string \<Rightarrow> string" where
  "after_sign s =
     (case s of [] \<Rightarrow> [] | c # r \<Rightarrow> if c = CHR ''-'' \<or> c = CHR ''+'' then r else s)"

definition has_point :: "string \<Rightarrow> bool" where
  "has_point s = (case s of [] \<Rightarrow> False | c # r \<Rightarrow> c = CHR ''.'')"

definition has_exponent :: "string \<Rightarrow> bool" where
  "has_exponent s = (case s of [] \<Rightarrow> False | c # r \<Rightarrow> c = CHR ''e'' \<or> c = CHR ''E'')"

definition from_significand :: "string \<Rightarrow> string" where
  "from_significand s = after_sign (dropWhile is_space s)"

definition from_point :: "string \<Rightarrow> string" where
  "from_point s = dropWhile is_digit (from_significand s)"

definition from_exponent :: "string \<Rightarrow> string" where
  "from_exponent s =
     (if has_point (from_point s) then dropWhile is_digit (tl (from_point s)) else from_point s)"

definition from_exponent_digits :: "string \<Rightarrow> string" where
  "from_exponent_digits s = after_sign (tl (from_exponent s))"

definition trailing :: "string \<Rightarrow> string" where
  "trailing s =
     dropWhile is_space
       (if has_exponent (from_exponent s) then dropWhile is_digit (from_exponent_digits s)
        else from_exponent s)"

definition integer_digits :: "string \<Rightarrow> string" where
  "integer_digits s = takeWhile is_digit (from_significand s)"

definition fraction_digits :: "string \<Rightarrow> string" where
  "fraction_digits s =
     (if has_point (from_point s) then takeWhile is_digit (tl (from_point s)) else [])"

definition exponent_digits :: "string \<Rightarrow> string" where
  "exponent_digits s = takeWhile is_digit (from_exponent_digits s)"

definition numeric_literal :: "string \<Rightarrow> bool" where
  "numeric_literal s =
     (trailing s = [] \<and> integer_digits s @ fraction_digits s \<noteq> []
      \<and> (if has_exponent (from_exponent s) then exponent_digits s \<noteq> [] else True))"

definition literal_value :: "string \<Rightarrow> rat" where
  "literal_value s =
     (if negative (dropWhile is_space s) then - 1 else 1)
     * of_nat (nat_of_digits (integer_digits s @ fraction_digits s))
     / 10 ^ length (fraction_digits s)
     * (if \<not> has_exponent (from_exponent s) then 1
        else if negative (tl (from_exponent s))
        then 1 / 10 ^ nat_of_digits (exponent_digits s)
        else 10 ^ nat_of_digits (exponent_digits s))"

text \<open>
  A literal without point and exponent that fits 64 bits is that integer; any other
  literal is a real, taken here as the binary64 nearest to its value. A text that is not
  a literal stays a text.
\<close>

definition sqlite_number :: "string \<Rightarrow> number option" where
  "sqlite_number s =
     (if \<not> numeric_literal s then None
      else if \<not> has_point (from_point s) \<and> \<not> has_exponent (from_exponent s)
              \<and> - (2 ^ 63) \<le> literal_value s \<and> literal_value s < 2 ^ 63
      then Some (Fin (literal_value s))
      else Some (fl (literal_value s)))"

text \<open>The row with key \<open>n\<close> is selected when the parameter reads as the number \<open>n\<close>.\<close>

definition key_matches :: "nat \<Rightarrow> string \<Rightarrow> bool" where
  "key_matches n key = (sqlite_number key = Some (Fin (of_nat n)))"

text \<open>
  \<^verbatim>\<open>UPDATE queue SET status = ? WHERE id = ?\<close>, and with \<open>stamp\<close> also
  \<^verbatim>\<open>processed_at = CURRENT_TIMESTAMP\<close>.
\<close>

definition update_status :: "string \<Rightarrow> job_status \<Rightarrow> bool \<Rightarrow> queue_row list \<Rightarrow> queue_row list" where
  "update_status key st stamp rows =
     map (\<lambda>r. if key_matches (q_id r) key
               then r\<lparr>q_status := st, q_processed_at := (stamp \<or> q_processed_at r)\<rparr>
               else r) rows"

subsection \<open>Dispatch\<close>

definition transferCardToId_request :: "transfer_payload \<Rightarrow> request" where
  "transferCardToId_request p = TransferCard (fromCard p) (toId p) (formatCoinAmount (amount p))"

definition transferCardToCard_request :: "transfer_payload \<Rightarrow> request" where
  "transferCardToCard_request p = CardPay (fromCard p) (toCard p) (formatCoinAmount (amount p))"

text \<open>
  The part of \<^verbatim>\<open>transferCardToId\<close> and \<^verbatim>\<open>transferCardToCard\<close> after the awaited POST
  (the accent of the default message is dropped).
\<close>

definition transfer_response :: "axios_outcome \<Rightarrow> error + transfer_result" where
  "transfer_response out =
     (case out of
        Rejected msg \<Rightarrow> Inl (RequestFailed msg)
      | Resolved None \<Rightarrow> Inl (SettlementFailed ''Falha na transferencia'')
      | Resolved (Some d) \<Rightarrow>
          if \<not> resp_success d
          then Inl (SettlementFailed
                 (case resp_error d of
                    None \<Rightarrow> ''Falha na transferencia''
                  | Some e \<Rightarrow> if e = [] then ''Falha na transferencia'' else e))
          else Inr \<lparr>txId = resp_txId d, date = resp_date d\<rparr>)"

text \<open>
  \<^verbatim>\<open>processItem(item)\<close> up to its first await: the request it posts, or the error it throws.
\<close>

definition processItem :: "'w item \<Rightarrow> error + request" where
  "processItem item =
     (if type item = ''card_to_id'' then Inr (transferCardToId_request (payload item))
      else if type item = ''card_to_card'' then Inr (transferCardToCard_request (payload item))
      else Inl (UnknownJobKind (type item)))"

subsection \<open>State and observable events\<close>

text \<open>
  The code is asynchronous: a call of \<^verbatim>\<open>add\<close> or \<^verbatim>\<open>process\<close> runs until its next
  \<^verbatim>\<open>await\<close>, and other calls run while it is suspended. A suspended call of \<^verbatim>\<open>process\<close>
  is recorded by the await it stands at.
\<close>

datatype 'w suspended =
    AwaitMarkProcessing "'w item"
  | AwaitPost "'w item"
  | AwaitMarkCompleted "'w item" transfer_result
  | AwaitOnSuccess "'w item" "'w \<Rightarrow> 'w completion"
  | AwaitMarkFailed "'w item" error
  | AwaitOnError "'w item" "'w \<Rightarrow> 'w completion"
  | AwaitDelay

text \<open>
  What a run does, in order. \<open>Submitted\<close> records the identifier and type of the item and
  whether it carries \<^verbatim>\<open>onSuccess\<close> and \<^verbatim>\<open>onError\<close>; \<open>StatusWritten\<close> is an UPDATE that
  resolved, \<open>WriteRejected\<close> one that was rejected, \<open>InsertRejected\<close> a rejected INSERT;
  \<open>Logged\<close> is the \<^verbatim>\<open>console.error\<close> of the \<^verbatim>\<open>catch\<close> block; \<open>ContinuationCalled u b\<close> is the
  call of \<^verbatim>\<open>onSuccess\<close> (\<open>b\<close> true) or \<^verbatim>\<open>onError\<close>, \<open>ContinuationSettled u b ok\<close> its return
  (\<open>ok\<close> true) or exception; \<open>Escaped\<close> is an exception that leaves \<^verbatim>\<open>process\<close>.
\<close>

datatype event =
    Submitted string string bool bool
  | InsertRejected string
  | StatusWritten string job_status
  | WriteRejected string job_status
  | Posted string request
  | Logged string error
  | ContinuationCalled string bool
  | ContinuationSettled string bool bool
  | DelayStarted string
  | Escaped string string

text \<open>
  \<open>adds\<close> are the calls of \<^verbatim>\<open>add\<close> suspended at their INSERT, \<open>drains\<close> the calls of
  \<^verbatim>\<open>process\<close> suspended inside the loop, \<open>table\<close> the rows of the table \<^verbatim>\<open>queue\<close>,
  \<open>world\<close> the state the continuations act on, \<open>trace\<close> the events so far.
\<close>

record 'w state =
  isProcessing :: bool
  queue :: "'w item list"
  table :: "queue_row list"
  adds :: "'w item list"
  drains :: "'w suspended list"
  world :: 'w
  trace :: "event list"

definition PaymentQueue :: "queue_row list \<Rightarrow> 'w \<Rightarrow> 'w state" where
  "PaymentQueue rows w =
     \<lparr>isProcessing = False, queue = [], table = rows, adds = [], drains = [], world = w,
      trace = []\<rparr>"

definition emit :: "event \<Rightarrow> 'w state \<Rightarrow> 'w state" where
  "emit e s = s\<lparr>trace := trace s @ [e]\<rparr>"

definition remove_nth :: "nat \<Rightarrow> 'a list \<Rightarrow> 'a list" where
  "remove_nth i xs = take i xs @ drop (Suc i) xs"

subsection \<open>\<^verbatim>\<open>add\<close>\<close>

text \<open>
  \<^verbatim>\<open>add(item)\<close> up to the awaited INSERT; \<open>uuid\<close> and \<open>now\<close> are what
  \<^verbatim>\<open>crypto.randomUUID()\<close> and \<^verbatim>\<open>Date.now()\<close> return.
\<close>

definition add :: "'w item \<Rightarrow> string \<Rightarrow> nat \<Rightarrow> 'w state \<Rightarrow> 'w state" where
  "add item0 uuid now s =
     (let item = item0\<lparr>id' := uuid, createdAt := now, status := pending\<rparr>
      in emit (Submitted uuid (type item) (onSuccess item \<noteq> None) (onError item \<noteq> None))
           (s\<lparr>queue := queue s @ [item], adds := adds s @ [item]\<rparr>))"

subsection \<open>\<^verbatim>\<open>process\<close>\<close>

text \<open>
  The head of the loop: the test of \<^verbatim>\<open>while\<close>, \<^verbatim>\<open>shift\<close>, and the first UPDATE issued;
  or, on an empty queue, the end of \<^verbatim>\<open>process\<close>. The first component is where the call
  is suspended next, \<open>None\<close> when it has returned.
\<close>

definition loop_head :: "'w state \<Rightarrow> 'w suspended option \<times> 'w state" where
  "loop_head s =
     (case queue s of
        [] \<Rightarrow> (None, s\<lparr>isProcessing := False\<rparr>)
      | item # rest \<Rightarrow> (Some (AwaitMarkProcessing item), s\<lparr>queue := rest\<rparr>))"

text \<open>A call of \<^verbatim>\<open>process()\<close>, up to its first await.\<close>

definition process :: "'w state \<Rightarrow> 'w state" where
  "process s =
     (if isProcessing s \<or> queue s = [] then s
      else
        case loop_head (s\<lparr>isProcessing := True\<rparr>) of
          (None, s1) \<Rightarrow> s1
        | (Some pc, s1) \<Rightarrow> s1\<lparr>drains := drains s1 @ [pc]\<rparr>)"

text \<open>The INSERT of the \<open>i\<close>-th suspended \<^verbatim>\<open>add\<close> resolves; \<^verbatim>\<open>add\<close> runs to its end.\<close>

definition insert_done :: "nat \<Rightarrow> 'w state \<Rightarrow> 'w state option" where
  "insert_done i s =
     (if i < length (adds s)
      then
        let s1 = s\<lparr>adds := remove_nth i (adds s), table := insert_row (adds s ! i) (table s)\<rparr>
        in Some (if \<not> isProcessing s1 then process s1 else s1)
      else None)"

text \<open>
  The INSERT of the \<open>i\<close>-th suspended \<^verbatim>\<open>add\<close> is rejected: \<^verbatim>\<open>add\<close> throws at its
  \<^verbatim>\<open>await\<close>, with the item already pushed and before \<^verbatim>\<open>process\<close> is called.
\<close>

definition insert_failed :: "nat \<Rightarrow> 'w state \<Rightarrow> 'w state option" where
  "insert_failed i s =
     (if i < length (adds s)
      then Some (emit (InsertRejected (id' (adds s ! i))) (s\<lparr>adds := remove_nth i (adds s)\<rparr>))
      else None)"

text \<open>The \<^verbatim>\<open>catch\<close> block up to its UPDATE, and the delay that ends an iteration.\<close>

definition catch_block :: "'w item \<Rightarrow> error \<Rightarrow> 'w state \<Rightarrow> 'w suspended option \<times> 'w state" where
  "catch_block item e s = (Some (AwaitMarkFailed item e), emit (Logged (id' item) e) s)"

definition start_delay :: "'w item \<Rightarrow> 'w state \<Rightarrow> 'w suspended option \<times> 'w state" where
  "start_delay item s = (Some AwaitDelay, emit (DelayStarted (id' item)) s)"

text \<open>An awaited \<^verbatim>\<open>db.run\<close> of the loop resolves.\<close>

definition db_done :: "'w suspended \<Rightarrow> 'w state \<Rightarrow> ('w suspended option \<times> 'w state) option" where
  "db_done pc s =
     (case pc of
        AwaitMarkProcessing item \<Rightarrow>
          let s1 = emit (StatusWritten (id' item) processing)
                     (s\<lparr>table := update_status (id' item) processing False (table s)\<rparr>)
          in (case processItem item of
                Inr req \<Rightarrow> Some (Some (AwaitPost item), emit (Posted (id' item) req) s1)
              | Inl e \<Rightarrow> Some (catch_block item e s1))
      | AwaitMarkCompleted item result \<Rightarrow>
          let s1 = emit (StatusWritten (id' item) completed)
                     (s\<lparr>table := update_status (id' item) completed True (table s)\<rparr>)
          in (case onSuccess item of
                Some f \<Rightarrow>
                  Some (Some (AwaitOnSuccess item (f result)),
                        emit (ContinuationCalled (id' item) True) s1)
              | None \<Rightarrow> Some (start_delay item s1))
      | AwaitMarkFailed item e \<Rightarrow>
          let s1 = emit (StatusWritten (id' item) failed)
                     (s\<lparr>table := update_status (id' item) failed True (table s)\<rparr>)
          in (case onError item of
                Some f \<Rightarrow>
                  Some (Some (AwaitOnError item (f e)),
                        emit (ContinuationCalled (id' item) False) s1)
              | None \<Rightarrow> Some (start_delay item s1))
      | _ \<Rightarrow> None)"

text \<open>
  An awaited \<^verbatim>\<open>db.run\<close> of the loop is rejected with message \<open>msg\<close>. The first two UPDATEs
  stand inside the \<^verbatim>\<open>try\<close>; the one of the \<^verbatim>\<open>catch\<close> block does not, and its exception
  leaves \<^verbatim>\<open>process\<close>.
\<close>

definition db_failed ::
  "string \<Rightarrow> 'w suspended \<Rightarrow> 'w state \<Rightarrow> ('w suspended option \<times> 'w state) option" where
  "db_failed msg pc s =
     (case pc of
        AwaitMarkProcessing item \<Rightarrow>
          Some (catch_block item (DatabaseError msg)
                  (emit (WriteRejected (id' item) processing) s))
      | AwaitMarkCompleted item result \<Rightarrow>
          Some (catch_block item (DatabaseError msg)
                  (emit (WriteRejected (id' item) completed) s))
      | AwaitMarkFailed item e \<Rightarrow>
          Some (None, emit (Escaped (id' item) msg) (emit (WriteRejected (id' item) failed) s))
      | _ \<Rightarrow> None)"

text \<open>The awaited POST settles.\<close>

definition post_done ::
  "axios_outcome \<Rightarrow> 'w suspended \<Rightarrow> 'w state \<Rightarrow> ('w suspended option \<times> 'w state) option" where
  "post_done out pc s =
     (case pc of
        AwaitPost item \<Rightarrow>
          (case transfer_response out of
             Inr result \<Rightarrow> Some (Some (AwaitMarkCompleted item result), s)
           | Inl e \<Rightarrow> Some (catch_block item e s))
      | _ \<Rightarrow> None)"

text \<open>
  The awaited continuation settles. An exception of \<^verbatim>\<open>onSuccess\<close> is inside the
  \<^verbatim>\<open>try\<close>; one of \<^verbatim>\<open>onError\<close> is inside the \<^verbatim>\<open>catch\<close> block and leaves \<^verbatim>\<open>process\<close>,
  whose last statement is then never reached.
\<close>

definition continuation_done ::
  "'w suspended \<Rightarrow> 'w state \<Rightarrow> ('w suspended option \<times> 'w state) option" where
  "continuation_done pc s =
     (case pc of
        AwaitOnSuccess item k \<Rightarrow>
          (case k (world s) of
             Returns w \<Rightarrow>
               Some (start_delay item (emit (ContinuationSettled (id' item) True True) (s\<lparr>world := w\<rparr>)))
           | Throws msg w \<Rightarrow>
               Some (catch_block item (ContinuationThrew msg)
                       (emit (ContinuationSettled (id' item) True False) (s\<lparr>world := w\<rparr>))))
      | AwaitOnError item k \<Rightarrow>
          (case k (world s) of
             Returns w \<Rightarrow>
               Some (start_delay item (emit (ContinuationSettled (id' item) False True) (s\<lparr>world := w\<rparr>)))
           | Throws msg w \<Rightarrow>
               Some (None, emit (Escaped (id' item) msg)
                             (emit (ContinuationSettled (id' item) False False) (s\<lparr>world := w\<rparr>))))
      | _ \<Rightarrow> None)"

text \<open>The timer of the delay fires: back to the head of the loop.\<close>

definition timer_fired :: "'w suspended \<Rightarrow> 'w state \<Rightarrow> ('w suspended option \<times> 'w state) option" where
  "timer_fired pc s = (case pc of AwaitDelay \<Rightarrow> Some (loop_head s) | _ \<Rightarrow> None)"

subsection \<open>Runs\<close>

text \<open>
  What the event loop can do next: start a call of \<^verbatim>\<open>add\<close>, or resume a suspended call
  whose awaited promise has settled; a \<^verbatim>\<open>db.run\<close> resolves (\<open>InsertDone\<close>, \<open>DbDone\<close>) or is
  rejected (\<open>InsertFailed\<close>, \<open>DbFailed\<close>).
\<close>

datatype 'w label =
    Add "'w item" string nat
  | InsertDone nat
  | InsertFailed nat
  | DbDone nat
  | DbFailed nat string
  | PostDone nat axios_outcome
  | ContinuationDone nat
  | TimerFired nat

definition resume ::
  "nat \<Rightarrow> ('w suspended \<Rightarrow> 'w state \<Rightarrow> ('w suspended option \<times> 'w state) option) \<Rightarrow>
   'w state \<Rightarrow> 'w state option" where
  "resume i k s =
     (if i < length (drains s)
      then
        case k (drains s ! i) s of
          None \<Rightarrow> None
        | Some (None, s1) \<Rightarrow> Some (s1\<lparr>drains := remove_nth i (drains s1)\<rparr>)
        | Some (Some pc, s1) \<Rightarrow> Some (s1\<lparr>drains := (drains s1)[i := pc]\<rparr>)
      else None)"

fun step :: "'w label \<Rightarrow> 'w state \<Rightarrow> 'w state option" where
  "step (Add item uuid now) s = Some (add item uuid now s)"
| "step (InsertDone i) s = insert_done i s"
| "step (InsertFailed i) s = insert_failed i s"
| "step (DbDone i) s = resume i db_done s"
| "step (DbFailed i msg) s = resume i (db_failed msg) s"
| "step (PostDone i out) s = resume i (post_done out) s"
| "step (ContinuationDone i) s = resume i continuation_done s"
| "step (TimerFired i) s = resume i timer_fired s"

fun run :: "'w label list \<Rightarrow> 'w state \<Rightarrow> 'w state option" where
  "run [] s = Some s"
| "run (l # ls) s = (case step l s of None \<Rightarrow> None | Some s1 \<Rightarrow> run ls s1)"

subsection \<open>Reading a trace\<close>

text \<open>A submitted job as \<open>Submitted\<close> records it.\<close>

datatype job = Job (job_id: string) (job_type: string) (has_onSuccess: bool) (has_onError: bool)

definition jobs :: "event list \<Rightarrow> job list" where
  "jobs tr = concat (map (\<lambda>e. case e of Submitted u ty hs he \<Rightarrow> [Job u ty hs he] | _ \<Rightarrow> []) tr)"

definition submitted :: "event list \<Rightarrow> (string \<times> string) list" where
  "submitted tr = concat (map (\<lambda>e. case e of Submitted u ty hs he \<Rightarrow> [(u, ty)] | _ \<Rightarrow> []) tr)"

definition started :: "event list \<Rightarrow> string list" where
  "started tr = concat (map (\<lambda>e. case e of StatusWritten u st \<Rightarrow> if st = processing then [u] else [] | _ \<Rightarrow> []) tr)"

text \<open>
  The jobs taken from the queue whose first UPDATE has settled: written \<open>processing\<close>, or
  that write rejected.
\<close>

definition shifted :: "event list \<Rightarrow> string list" where
  "shifted tr =
     concat (map (\<lambda>e. case e of
                         StatusWritten u st \<Rightarrow> if st = processing then [u] else []
                       | WriteRejected u st \<Rightarrow> if st = processing then [u] else []
                       | _ \<Rightarrow> []) tr)"

definition posted :: "event list \<Rightarrow> (string \<times> request) list" where
  "posted tr = concat (map (\<lambda>e. case e of Posted u r \<Rightarrow> [(u, r)] | _ \<Rightarrow> []) tr)"

definition statuses_written :: "event list \<Rightarrow> string \<Rightarrow> job_status list" where
  "statuses_written tr u =
     concat (map (\<lambda>e. case e of StatusWritten v st \<Rightarrow> if v = u then [st] else [] | _ \<Rightarrow> []) tr)"

text \<open>The status of a job as the processor has written it: the last one, \<open>pending\<close> at first.\<close>

definition status_of :: "event list \<Rightarrow> string \<Rightarrow> job_status" where
  "status_of tr u = last (pending # statuses_written tr u)"

text \<open>The database writes that were rejected, and the exceptions that left \<^verbatim>\<open>process\<close>.\<close>

definition rejected :: "event list \<Rightarrow> string list" where
  "rejected tr =
     concat (map (\<lambda>e. case e of InsertRejected u \<Rightarrow> [u] | WriteRejected u st \<Rightarrow> [u] | _ \<Rightarrow> []) tr)"

definition escaped :: "event list \<Rightarrow> string list" where
  "escaped tr = concat (map (\<lambda>e. case e of Escaped u m \<Rightarrow> [u] | _ \<Rightarrow> []) tr)"

subsection \<open>The order of events of a serial processor\<close>

definition known_kind :: "string \<Rightarrow> bool" where
  "known_kind ty = (ty = ''card_to_id'' \<or> ty = ''card_to_card'')"

text \<open>
  What a processor that handles the submitted jobs one at a time and first in, first out
  may emit, as an acceptor of traces. Its state is the list of the submitted jobs not yet
  taken and the phase of the job in hand:
  \<^item> \<open>Idle\<close>: no job in hand; the next job is the first of the list, and it is taken by
    its \<open>processing\<close> write, resolved (\<open>Marked\<close>) or rejected (\<open>Thrown\<close>);
  \<^item> \<open>Marked\<close>: a job of a known type is posted (\<open>Called\<close>), one of another type is logged
    with the unknown-type error (\<open>Failing\<close>);
  \<^item> \<open>Called\<close>: the job is written \<open>completed\<close> (\<open>Completed\<close>), or that write is rejected
    (\<open>Thrown\<close>), or the error of the transfer is logged (\<open>Failing\<close>);
  \<^item> \<open>Completed\<close>: a job with \<^verbatim>\<open>onSuccess\<close> has it called, one without starts its delay;
  \<^item> \<open>Thrown\<close>: an exception inside the \<^verbatim>\<open>try\<close> is logged (\<open>Failing\<close>);
  \<^item> \<open>Failing\<close>: the job is written \<open>failed\<close> (\<open>Failed\<close>), or that write is rejected, which
    leaves the processor (\<open>Escaping\<close>);
  \<^item> \<open>Failed\<close>: a job with \<^verbatim>\<open>onError\<close> has it called, one without starts its delay;
  \<^item> \<open>InContinuation\<close>: the continuation called settles before anything else happens to
    the job: it returns (\<open>Settled\<close>), or \<^verbatim>\<open>onSuccess\<close> throws (\<open>Thrown\<close>), or \<^verbatim>\<open>onError\<close>
    throws (\<open>Escaping\<close>);
  \<^item> \<open>Settled\<close>: the delay starts, and the processor is \<open>Idle\<close> again;
  \<^item> \<open>Escaping\<close>, \<open>Dead\<close>: the exception leaves the processor, which handles no job any
    more.

  Submissions and rejected INSERTs may come at any time.
\<close>

datatype phase =
    Idle
  | Marked job
  | Called job
  | Completed job
  | Thrown job
  | Failing job
  | Failed job
  | InContinuation job bool
  | Settled job
  | Escaping job
  | Dead

fun protocol :: "job list \<times> phase \<Rightarrow> event \<Rightarrow> (job list \<times> phase) option" where
  "protocol (p, ph) (Submitted u ty hs he) = Some (p @ [Job u ty hs he], ph)"
| "protocol (p, ph) (InsertRejected u) = Some (p, ph)"
| "protocol (p, ph) (StatusWritten u st) =
     (case ph of
        Idle \<Rightarrow>
          (case p of
             [] \<Rightarrow> None
           | j # q \<Rightarrow> if u = job_id j \<and> st = processing then Some (q, Marked j) else None)
      | Called j \<Rightarrow> if u = job_id j \<and> st = completed then Some (p, Completed j) else None
      | Failing j \<Rightarrow> if u = job_id j \<and> st = failed then Some (p, Failed j) else None
      | _ \<Rightarrow> None)"
| "protocol (p, ph) (WriteRejected u st) =
     (case ph of
        Idle \<Rightarrow>
          (case p of
             [] \<Rightarrow> None
           | j # q \<Rightarrow> if u = job_id j \<and> st = processing then Some (q, Thrown j) else None)
      | Called j \<Rightarrow> if u = job_id j \<and> st = completed then Some (p, Thrown j) else None
      | Failing j \<Rightarrow> if u = job_id j \<and> st = failed then Some (p, Escaping j) else None
      | _ \<Rightarrow> None)"
| "protocol (p, ph) (Posted u r) =
     (case ph of
        Marked j \<Rightarrow> if u = job_id j \<and> known_kind (job_type j) then Some (p, Called j) else None
      | _ \<Rightarrow> None)"
| "protocol (p, ph) (Logged u e) =
     (case ph of
        Marked j \<Rightarrow>
          if u = job_id j \<and> \<not> known_kind (job_type j) \<and> e = UnknownJobKind (job_type j)
          then Some (p, Failing j) else None
      | Called j \<Rightarrow> if u = job_id j then Some (p, Failing j) else None
      | Thrown j \<Rightarrow> if u = job_id j then Some (p, Failing j) else None
      | _ \<Rightarrow> None)"
| "protocol (p, ph) (ContinuationCalled u b) =
     (case ph of
        Completed j \<Rightarrow>
          if u = job_id j \<and> b \<and> has_onSuccess j then Some (p, InContinuation j True) else None
      | Failed j \<Rightarrow>
          if u = job_id j \<and> \<not> b \<and> has_onError j then Some (p, InContinuation j False) else None
      | _ \<Rightarrow> None)"
| "protocol (p, ph) (ContinuationSettled u b ok) =
     (case ph of
        InContinuation j x \<Rightarrow>
          if u = job_id j \<and> b = x
          then Some (p, if ok then Settled j else if x then Thrown j else Escaping j)
          else None
      | _ \<Rightarrow> None)"
| "protocol (p, ph) (DelayStarted u) =
     (case ph of
        Completed j \<Rightarrow> if u = job_id j \<and> \<not> has_onSuccess j then Some (p, Idle) else None
      | Failed j \<Rightarrow> if u = job_id j \<and> \<not> has_onError j then Some (p, Idle) else None
      | Settled j \<Rightarrow> if u = job_id j then Some (p, Idle) else None
      | _ \<Rightarrow> None)"
| "protocol (p, ph) (Escaped u m) =
     (case ph of
        Escaping j \<Rightarrow> if u = job_id j then Some (p, Dead) else None
      | _ \<Rightarrow> None)"

fun follow :: "job list \<times> phase \<Rightarrow> event list \<Rightarrow> (job list \<times> phase) option" where
  "follow st [] = Some st"
| "follow st (e # es) = (case protocol st e of None \<Rightarrow> None | Some st1 \<Rightarrow> follow st1 es)"

definition serial :: "event list \<Rightarrow> bool" where
  "serial tr = (follow ([], Idle) tr \<noteq> None)"

section \<open>The command \<^verbatim>\<open>/money withdraw\<close>\<close>

text \<open>
  A row of the table \<^verbatim>\<open>users\<close>, keyed by \<^verbatim>\<open>(user_id, guild_id)\<close>; \<open>None\<close> is SQL's NULL.
  The world of the command's continuation is that table, and whether Discord rejects
  the reply.
\<close>

record user_row =
  card_id :: "string option"
  dollars :: "number option"

record bot_world =
  users :: "string \<times> string \<Rightarrow> user_row option"
  editReply_rejects :: bool

text \<open>
  \<^verbatim>\<open>UPDATE users SET dollars = ?, ... WHERE user_id = ? AND guild_id = ?\<close>
\<close>

definition update_dollars ::
  "number \<Rightarrow> string \<Rightarrow> string \<Rightarrow> (string \<times> string \<Rightarrow> user_row option) \<Rightarrow>
   (string \<times> string \<Rightarrow> user_row option)" where
  "update_dollars v user_id guild_id us =
     (case us (user_id, guild_id) of
        None \<Rightarrow> us
      | Some r \<Rightarrow> us((user_id, guild_id) \<mapsto> r\<lparr>dollars := Some v\<rparr>))"

text \<open>
  The answer of \<^verbatim>\<open>checkCardStatus\<close>; a missing \<^verbatim>\<open>coins\<close> compares as \<open>NaN\<close> does.
\<close>

record card_status =
  cs_success :: bool
  coins :: number

datatype reply = InvalidValue | CardNotConfigured | ServerNotConfigured | InsufficientCoins

text \<open>The \<^verbatim>\<open>onSuccess\<close> closure of the withdraw handler.\<close>

definition withdraw_onSuccess ::
  "string \<Rightarrow> string \<Rightarrow> user_row \<Rightarrow> number \<Rightarrow> transfer_result \<Rightarrow> bot_world \<Rightarrow>
   bot_world completion" where
  "withdraw_onSuccess guild user userData dollarAmount result w =
     (let newDollars = truncateDollar (num_add (or_zero (dollars userData)) dollarAmount);
          w1 = w\<lparr>users := update_dollars newDollars user guild (users w)\<rparr>
      in if editReply_rejects w1 then Throws ''editReply'' w1 else Returns w1)"

text \<open>
  The handler from the parsed amount to the call of \<^verbatim>\<open>paymentQueue.add\<close>: the reply of
  an early return, or the item it submits. \<open>server_card_id\<close> is the configured card of
  the guild, \<open>userCardStatus\<close> the status of the user's card; both lookups are taken to
  return.
\<close>

definition money_withdraw ::
  "string \<Rightarrow> string \<Rightarrow> number \<Rightarrow> bot_world \<Rightarrow> string option \<Rightarrow> card_status \<Rightarrow>
   reply + bot_world item" where
  "money_withdraw guild user dollarAmount w server_card_id userCardStatus =
     (if isNaN dollarAmount \<or> num_le dollarAmount (Fin 0) then Inl InvalidValue
      else
        case users w (user, guild) of
          None \<Rightarrow> Inl CardNotConfigured
        | Some userData \<Rightarrow>
            (case card_id userData of
               None \<Rightarrow> Inl CardNotConfigured
             | Some user_card \<Rightarrow>
                 if user_card = [] then Inl CardNotConfigured
                 else
                   (case server_card_id of
                      None \<Rightarrow> Inl ServerNotConfigured
                    | Some server_card \<Rightarrow>
                        if server_card = [] then Inl ServerNotConfigured
                        else
                          let coinAmount = num_mul dollarAmount (fl (1 / 10 ^ 8))
                          in if \<not> cs_success userCardStatus then Inl InsufficientCoins
                             else if num_less (coins userCardStatus) coinAmount
                             then Inl InsufficientCoins
                             else
                               Inr \<lparr>guildId = guild, userId = user, type = ''card_to_card'',
                                    payload = \<lparr>fromCard = user_card, toId = None,
                                                toCard = Some server_card, amount = coinAmount\<rparr>,
                                    onSuccess =
                                      Some (withdraw_onSuccess guild user userData dollarAmount),
                                    onError = None, id' = [], createdAt = 0, status = pending\<rparr>)))"

section \<open>Sample jobs and answers\<close>

text \<open>Two identifiers of the shape \<^verbatim>\<open>crypto.randomUUID()\<close> returns.\<close>

definition uuid1 :: string where
  "uuid1 = ''3b241101-e2bb-4255-8caf-4136c566a962''"

definition uuid2 :: string where
  "uuid2 = ''9f1c2d3e-4b5a-4c6d-8e7f-0a1b2c3d4e5f''"

text \<open>A transfer job of a given type with given continuations, as a caller builds it.\<close>

definition transfer_job ::
  "string \<Rightarrow> (transfer_result \<Rightarrow> 'w \<Rightarrow> 'w completion) option \<Rightarrow>
   (error \<Rightarrow> 'w \<Rightarrow> 'w completion) option \<Rightarrow> 'w item" where
  "transfer_job ty f g =
     \<lparr>guildId = ''guild'', userId = ''user'', type = ty,
      payload = \<lparr>fromCard = ''card-a'', toId = Some ''user'', toCard = Some ''card-b'',
                 amount = Fin 5\<rparr>,
      onSuccess = f, onError = g, id' = [], createdAt = 0, status = pending\<rparr>"

text \<open>A continuation that returns, and one that throws.\<close>

definition returning :: "'a \<Rightarrow> 'w \<Rightarrow> 'w completion" where
  "returning x w = Returns w"

definition throwing :: "'a \<Rightarrow> 'w \<Rightarrow> 'w completion" where
  "throwing x w = Throws ''boom'' w"

text \<open>The service accepts a transfer: \<^verbatim>\<open>{success: true, txId: 'tx', date: 'today'}\<close>.\<close>

definition accepted :: axios_outcome where
  "accepted =
     Resolved (Some \<lparr>resp_success = True, resp_txId = ''tx'', resp_date = ''today'',
                      resp_error = None\<rparr>)"

text \<open>
  A user with a linked card and a balance, and the withdraw command of that user for
  \<^verbatim>\<open>10.00\<close> with enough coins on the card.
\<close>

definition ledger :: "number \<Rightarrow> bot_world" where
  "ledger b =
     \<lparr>users = [(''user'', ''guild'') \<mapsto> \<lparr>card_id = Some ''user-card'', dollars = Some b\<rparr>],
      editReply_rejects = False\<rparr>"

definition withdraw10 :: "number \<Rightarrow> reply + bot_world item" where
  "withdraw10 b =
     money_withdraw ''guild'' ''user'' (Fin 10) (ledger b) (Some ''server-card'')
       \<lparr>cs_success = True, coins = Fin 1\<rparr>"

definition balance :: "bot_world \<Rightarrow> number option" where
  "balance w = (case users w (''user'', ''guild'') of None \<Rightarrow> None | Some r \<Rightarrow> dollars r)"

section \<open>Invariants of runs\<close>

text \<open>An item as \<open>Submitted\<close> records it.\<close>

definition job_of :: "'w item \<Rightarrow> job" where
  "job_of it = Job (id' it) (type it) (onSuccess it \<noteq> None) (onError it \<noteq> None)"

text \<open>The item taken from the queue whose first UPDATE has not settled yet.\<close>

definition taking :: "'w suspended list \<Rightarrow> 'w item list" where
  "taking ds = concat (map (\<lambda>d. case d of AwaitMarkProcessing it \<Rightarrow> [it] | _ \<Rightarrow> []) ds)"

text \<open>A suspended call holds the job \<open>u\<close> between its \<open>processing\<close> and its next status.\<close>

definition in_flight :: "'w suspended \<Rightarrow> string \<Rightarrow> bool" where
  "in_flight d u =
     (case d of
        AwaitPost it \<Rightarrow> id' it = u
      | AwaitMarkCompleted it r \<Rightarrow> id' it = u
      | AwaitMarkFailed it e \<Rightarrow> id' it = u
      | _ \<Rightarrow> False)"

text \<open>The phase of the serial processor a suspended call stands in.\<close>

definition phase_of_suspended :: "'w suspended \<Rightarrow> phase" where
  "phase_of_suspended d =
     (case d of
        AwaitMarkProcessing it \<Rightarrow> Idle
      | AwaitPost it \<Rightarrow> Called (job_of it)
      | AwaitMarkCompleted it r \<Rightarrow> Called (job_of it)
      | AwaitOnSuccess it k \<Rightarrow> InContinuation (job_of it) True
      | AwaitMarkFailed it e \<Rightarrow> Failing (job_of it)
      | AwaitOnError it k \<Rightarrow> InContinuation (job_of it) False
      | AwaitDelay \<Rightarrow> Idle)"

definition phase_of :: "'w state \<Rightarrow> phase" where
  "phase_of s =
     (case drains s of
        [] \<Rightarrow> if isProcessing s then Dead else Idle
      | d # ds \<Rightarrow> phase_of_suspended d)"

text \<open>The submitted jobs that have been taken from the queue: as many as were shifted.\<close>

definition taken :: "event list \<Rightarrow> job list" where
  "taken tr = take (length (shifted tr)) (jobs tr)"

text \<open>
  The jobs the service was called for, and the taken jobs of a known type, in order.
\<close>

definition called :: "event list \<Rightarrow> string list" where
  "called tr = map fst (posted tr)"

definition due :: "event list \<Rightarrow> string list" where
  "due tr = map job_id (filter (\<lambda>j. known_kind (job_type j)) (taken tr))"

text \<open>
  What holds in every state of every run, in four parts. First, the one call of
  \<^verbatim>\<open>process\<close>: at most one is suspended, only while \<open>isProcessing\<close> is set; a job
  written \<open>processing\<close> is held by it, unless an exception has left \<^verbatim>\<open>process\<close>; and at
  most one job is written \<open>processing\<close>.
\<close>

definition one_drain :: "'w state \<Rightarrow> bool" where
  "one_drain s =
     (length (drains s) \<le> 1
      \<and> (drains s \<noteq> [] \<longrightarrow> isProcessing s)
      \<and> (\<forall>u. status_of (trace s) u = processing \<longrightarrow>
             (drains s = [] \<and> isProcessing s) \<or> (\<exists>d \<in> set (drains s). in_flight d u))
      \<and> (\<forall>u v. status_of (trace s) u = processing \<and> status_of (trace s) v = processing \<longrightarrow>
             u = v))"

text \<open>
  Second, the trace is one of the serial processor, which stands where the suspended
  call stands, with the items still queued as its list.
\<close>

definition in_phase :: "'w state \<Rightarrow> bool" where
  "in_phase s =
     (follow ([], Idle) (trace s) = Some (map job_of (taking (drains s) @ queue s), phase_of s))"

text \<open>
  Third, the jobs taken are the first of the submitted ones, and the transfers posted
  are for taken jobs of a known type: one for each, in order, when no \<^verbatim>\<open>db.run\<close> was
  rejected.
\<close>

definition in_order :: "'w state \<Rightarrow> bool" where
  "in_order s =
     (jobs (trace s) = taken (trace s) @ map job_of (taking (drains s) @ queue s)
      \<and> map job_id (taken (trace s)) = shifted (trace s)
      \<and> set (called (trace s)) \<subseteq> set (due (trace s))
      \<and> (rejected (trace s) = [] \<longrightarrow> called (trace s) = due (trace s)))"

text \<open>
  Fourth, as long as no \<^verbatim>\<open>db.run\<close> was rejected and no exception has left \<^verbatim>\<open>process\<close>:
  while \<open>isProcessing\<close> is set a call of \<^verbatim>\<open>process\<close> is suspended, and otherwise every
  queued item belongs to a call of \<^verbatim>\<open>add\<close> that will call \<^verbatim>\<open>process\<close>.
\<close>

definition kept_going :: "'w state \<Rightarrow> bool" where
  "kept_going s =
     (rejected (trace s) = [] \<and> escaped (trace s) = [] \<longrightarrow>
        (isProcessing s \<longrightarrow> drains s \<noteq> [])
        \<and> (\<not> isProcessing s \<longrightarrow> set (queue s) \<subseteq> set (adds s)))"

definition inv :: "'w state \<Rightarrow> bool" where
  "inv s = (one_drain s \<and> in_phase s \<and> in_order s \<and> kept_going s)"

section \<open>Between two settlement calls\<close>

text \<open>
  The job a phase of the serial processor has in hand, and what is still due to the job
  \<open>j\<close> in hand at phase \<open>ph\<close> before its delay starts, as a property of the events \<open>es\<close>
  up to that delay: a job that is called, or whose exception is on its way, gets a
  terminal status written; a job with \<^verbatim>\<open>onSuccess\<close> written \<open>completed\<close> has it called,
  and one with \<^verbatim>\<open>onError\<close> written \<open>failed\<close> has that called; and a continuation that was
  called settles.
\<close>

fun job_in :: "phase \<Rightarrow> job list" where
  "job_in Idle = []"
| "job_in (Marked j) = [j]"
| "job_in (Called j) = [j]"
| "job_in (Completed j) = [j]"
| "job_in (Thrown j) = [j]"
| "job_in (Failing j) = [j]"
| "job_in (Failed j) = [j]"
| "job_in (InContinuation j x) = [j]"
| "job_in (Settled j) = [j]"
| "job_in (Escaping j) = [j]"
| "job_in Dead = []"

definition calls_settle :: "string \<Rightarrow> event list \<Rightarrow> bool" where
  "calls_settle u es =
     (\<forall>es1 x es2. es = es1 @ ContinuationCalled u x # es2 \<longrightarrow>
        (\<exists>ok. ContinuationSettled u x ok \<in> set es2))"

definition due_to :: "phase \<Rightarrow> job \<Rightarrow> event list \<Rightarrow> bool" where
  "due_to ph j es =
     ((ph = Called j \<or> ph = Thrown j \<or> ph = Failing j \<longrightarrow>
         StatusWritten (job_id j) completed \<in> set es \<or> StatusWritten (job_id j) failed \<in> set es)
      \<and> (has_onSuccess j \<and> (ph = Completed j \<or> StatusWritten (job_id j) completed \<in> set es)
            \<longrightarrow> ContinuationCalled (job_id j) True \<in> set es)
      \<and> (has_onError j \<and> (ph = Failed j \<or> StatusWritten (job_id j) failed \<in> set es)
            \<longrightarrow> ContinuationCalled (job_id j) False \<in> set es)
      \<and> (\<forall>x. ph = InContinuation j x \<longrightarrow>
             (\<exists>ok. ContinuationSettled (job_id j) x ok \<in> set es))
      \<and> calls_settle (job_id j) es)"

section \<open>How much is left to do\<close>

text \<open>
  A bound on the number of promises that can still settle when nothing more is
  submitted: every await of \<^verbatim>\<open>process\<close> has a rank_of that falls along an iteration, and a
  queued item counts for more than a whole iteration.
\<close>

definition rank_of :: "'w suspended \<Rightarrow> nat" where
  "rank_of d =
     (case d of
        AwaitMarkProcessing it \<Rightarrow> 7
      | AwaitPost it \<Rightarrow> 6
      | AwaitMarkCompleted it r \<Rightarrow> 5
      | AwaitOnSuccess it k \<Rightarrow> 4
      | AwaitMarkFailed it e \<Rightarrow> 3
      | AwaitOnError it k \<Rightarrow> 2
      | AwaitDelay \<Rightarrow> 1)"

definition work :: "'w state \<Rightarrow> nat" where
  "work s = length (adds s) + 8 * length (queue s) + sum_list (map rank_of (drains s))"

text \<open>A label other than a submission; and one whose \<^verbatim>\<open>db.run\<close>, if any, resolves.\<close>

fun settles :: "'w label \<Rightarrow> bool" where
  "settles (Add item uuid now) = False"
| "settles _ = True"

fun resolves :: "'w label \<Rightarrow> bool" where
  "resolves (InsertFailed i) = False"
| "resolves (DbFailed i msg) = False"
| "resolves _ = True"

section \<open>Identifiers that match no row\<close>

text \<open>
  The shape of the identifiers \<^verbatim>\<open>crypto.randomUUID()\<close> returns: 32 hexadecimal digits in
  groups of 8, 4, 4, 4 and 12, separated by hyphens.
\<close>

definition shape :: "char \<Rightarrow> char" where
  "shape c =
     (if c = CHR ''-'' then CHR ''-''
      else if c \<in> set ''0123456789abcdef'' then CHR ''x'' else CHR ''?'')"

definition uuid_like :: "string \<Rightarrow> bool" where
  "uuid_like u = (map shape u = ''xxxxxxxx-xxxx-xxxx-xxxx-xxxxxxxxxxxx'')"

text \<open>
  The item a suspended drain holds, states and labels whose identifiers all have that
  shape, and a table that has only grown by \<open>pending\<close> rows.
\<close>

definition suspended_item :: "'w suspended \<Rightarrow> 'w item list" where
  "suspended_item d =
     (case d of
        AwaitMarkProcessing it \<Rightarrow> [it]
      | AwaitPost it \<Rightarrow> [it]
      | AwaitMarkCompleted it r \<Rightarrow> [it]
      | AwaitOnSuccess it k \<Rightarrow> [it]
      | AwaitMarkFailed it e \<Rightarrow> [it]
      | AwaitOnError it k \<Rightarrow> [it]
      | AwaitDelay \<Rightarrow> [])"

definition ids_uuid_like :: "'w state \<Rightarrow> bool" where
  "ids_uuid_like s =
     ((\<forall>it \<in> set (queue s). uuid_like (id' it)) \<and> (\<forall>it \<in> set (adds s). uuid_like (id' it))
      \<and> (\<forall>d \<in> set (drains s). \<forall>it \<in> set (suspended_item d). uuid_like (id' it)))"

fun label_uuid_like :: "'w label \<Rightarrow> bool" where
  "label_uuid_like (Add item uuid now) = uuid_like uuid"
| "label_uuid_like _ = True"

definition only_pending_added :: "queue_row list \<Rightarrow> queue_row list \<Rightarrow> bool" where
  "only_pending_added old new =
     (\<exists>rows. new = old @ rows \<and> (\<forall>r \<in> set rows. q_status r = pending \<and> \<not> q_processed_at r))"

section \<open>Evaluation of closed terms\<close>

lemma floor_rat_numeral_div:
  "\<lfloor>(numeral a :: rat) / numeral b\<rfloor> = numeral a div numeral b"
  using floor_divide_of_int_eq [of "numeral a" "numeral b", where ?'a = rat] by simp

lemma replicate_numeral_unfold:
  "replicate (numeral k) x = x # replicate (pred_numeral k) x"
  by (simp add: numeral_eq_Suc)

lemmas fl_eval = fl_def ilog2_def pow2_def round_half_even_def Let_def ilog2_up.simps
  ilog2_down.simps floor_rat_numeral_div

lemmas fmt_eval = replicate_numeral_unfold formatCoinAmount_def toFixed_def isNaN_def Let_def
  dec_digits.simps digit_char_def strip_trailing_zeros_def strip_trailing_dot_def
  floor_rat_numeral_div round_scaled_def pad_zeros_def insert_point_def

lemmas queue_eval = add_def emit_def insert_done_def process_def loop_head_def resume_def
  db_done_def post_done_def continuation_done_def timer_fired_def catch_block_def
  start_delay_def processItem_def transfer_response_def remove_nth_def PaymentQueue_def
  insert_row_def next_id_def update_status_def key_matches_def
  transferCardToId_request_def transferCardToCard_request_def Let_def

text \<open>The doubles of the decimal literals and amounts of the scenarios.\<close>

lemma fl_literal_1e8: "fl (1 / 10 ^ 8) = Fin (3022314549036573 / 302231454903657293676544)"
  by (simp add: fl_eval)

lemma fl_literal_0_123456789:
  "fl (123456789 / 10 ^ 9) = Fin (8895999182988127 / 72057594037927936)"
  by (simp add: fl_eval)

lemma fl_literal_0_03: "fl (3 / 100) = Fin (1080863910568919 / 36028797018963968)"
  by (simp add: fl_eval)

lemma fl_literal_10_02: "fl (1002 / 100) = Fin (2820379266640773 / 281474976710656)"
  by (simp add: fl_eval)

lemma fl_literal_10_03: "fl (1003 / 100) = Fin (5646388032815759 / 562949953421312)"
  by (simp add: fl_eval)

lemma coin_amount_of_10:
  "num_mul (Fin 10) (fl (1 / 10 ^ 8)) = Fin (944473296573929 / 9444732965739290427392)"
  by (simp add: fl_literal_1e8) (simp add: fl_eval)

lemma formatCoinAmount_1e7:
  "formatCoinAmount (Fin (944473296573929 / 9444732965739290427392)) = ''0.0000001''"
  by (simp add: fmt_eval)

lemma formatCoinAmount_5: "formatCoinAmount (Fin 5) = ''5''"
  by (simp add: fmt_eval)

lemma sum_0_03_10:
  "num_add (Fin (1080863910568919 / 36028797018963968)) (Fin 10) =
   Fin (5646388032815759 / 562949953421312)"
  by (simp add: fl_eval)

lemma truncateDollar_10_03:
  "truncateDollar (Fin (5646388032815759 / 562949953421312)) =
   Fin (2820379266640773 / 281474976710656)"
  by (simp add: truncateDollar_def isNaN_def num_floor_def) (simp add: fl_eval)

lemma truncateDollar_10: "truncateDollar (Fin 10) = Fin 10"
  by (simp add: truncateDollar_def isNaN_def num_floor_def) (simp add: fl_eval)

lemma sum_0_10: "num_add (Fin 0) (Fin 10) = Fin 10"
  by (simp add: fl_eval)

lemmas sqlite_eval = sqlite_number_def numeric_literal_def trailing_def from_exponent_def
  from_exponent_digits_def from_point_def from_significand_def after_sign_def has_point_def
  has_exponent_def is_space_def is_digit_def integer_digits_def fraction_digits_def
  exponent_digits_def

lemma uuid1_not_numeric: "sqlite_number uuid1 = None"
  by (simp add: uuid1_def sqlite_eval)

lemma uuid2_not_numeric: "sqlite_number uuid2 = None"
  by (simp add: uuid2_def sqlite_eval)

lemma uuid1_neq_uuid2: "uuid1 \<noteq> uuid2" "uuid2 \<noteq> uuid1"
  by (simp_all add: uuid1_def uuid2_def)

section \<open>Card masking hides everything after the third character\<close>

text \<open>
  C10: two card ids of equal length that agree on their first three characters are masked
  to the same text; an id of length at least 3 is masked to its first three characters
  followed by \<open>#\<close> only, with the length kept; a shorter id is masked to \<open>###\<close>.
\<close>

theorem maskCardId_reveals_first3:
  "(length s = length t \<and> take 3 s = take 3 t \<longrightarrow> maskCardId (Some s) = maskCardId (Some t))
   \<and> (3 \<le> length s \<longrightarrow>
         maskCardId (Some s) = take 3 s @ replicate (length s - 3) (CHR ''#'')
         \<and> length (maskCardId (Some s)) = length s
         \<and> (\<forall>c \<in> set (drop 3 (maskCardId (Some s))). c = CHR ''#''))
   \<and> (length s < 3 \<longrightarrow> maskCardId (Some s) = ''###'')"
  by (auto simp: maskCardId_def nat_diff_distrib')

theorem maskCardId_reveals_first3_witness:
  "maskCardId (Some ''abc12345'') = ''abc#####''
   \<and> maskCardId (Some ''abc12345'') = maskCardId (Some ''abc98765'')
   \<and> maskCardId (Some ''ab'') = ''###''"
proof -
  have len: "length ''abc12345'' = length ''abc98765'' \<and> take 3 ''abc12345'' = take 3 ''abc98765''"
    by simp
  have ge: "3 \<le> length ''abc12345''" by simp
  have lt: "length ''ab'' < 3" by simp
  have "maskCardId (Some ''abc12345'') = take 3 ''abc12345'' @ replicate (length ''abc12345'' - 3) (CHR ''#'')"
    using maskCardId_reveals_first3 [of "''abc12345''" "''abc98765''"] ge by blast
  then have a: "maskCardId (Some ''abc12345'') = ''abc#####''"
    by (simp add: eval_nat_numeral)
  have b: "maskCardId (Some ''abc12345'') = maskCardId (Some ''abc98765'')"
    using maskCardId_reveals_first3 [of "''abc12345''" "''abc98765''"] len by blast
  have c: "maskCardId (Some ''ab'') = ''###''"
    using maskCardId_reveals_first3 [of "''ab''" "''ab''"] lt by blast
  from a b c show ?thesis by blast
qed

section \<open>The transport encoding of a coin amount\<close>

text \<open>
  C7, as the code has it: on \<open>NaN\<close> the encoding does not fail; the guard of its second
  line returns the fixed text \<open>0.00000000\<close>. The same holds of \<^verbatim>\<open>toApiFormat\<close>.
\<close>

theorem formatCoinAmount_NaN:
  "isNaN v \<Longrightarrow> formatCoinAmount v = ''0.00000000'' \<and> toApiFormat v = ''0.00000000''"
  by (simp add: formatCoinAmount_def toApiFormat_def)

theorem formatCoinAmount_NaN_witness:
  "isNaN NaN \<and> formatCoinAmount NaN = ''0.00000000'' \<and> toApiFormat NaN = ''0.00000000''"
  using formatCoinAmount_NaN [of NaN] by (simp add: isNaN_def)

text \<open>
  C7 as stated fails: a text is returned for every input that is not a finite number.
\<close>

theorem formatCoinAmount_not_finite_counterexample:
  "formatCoinAmount NaN = ''0.00000000'' \<and> formatCoinAmount PosInf = ''Infinity''
   \<and> formatCoinAmount NegInf = ''-Infinity''"
  by (simp add: formatCoinAmount_def toFixed_def isNaN_def)

text \<open>
  C3 as stated fails: the literal \<^verbatim>\<open>0.123456789\<close> is encoded as \<open>0.12345679\<close>, the ninth
  fraction digit rounding the eighth up.
\<close>

theorem formatCoinAmount_rounds_counterexample:
  "formatCoinAmount (fl (123456789 / 10 ^ 9)) = ''0.12345679''
   \<and> formatCoinAmount (fl (123456789 / 10 ^ 9)) \<noteq> ''0.12345678''"
  by (simp only: fl_literal_0_123456789) (simp add: fmt_eval)

section \<open>Digits and the value of a decimal text\<close>

lemma digit_char_props:
  assumes "d < 10"
  shows "is_digit (digit_char d)" and "digit_val (digit_char d) = d"
proof -
  from assms have d: "d = 0 \<or> d = 1 \<or> d = 2 \<or> d = 3 \<or> d = 4 \<or> d = 5 \<or> d = 6
      \<or> d = 7 \<or> d = 8 \<or> d = 9"
    by arith
  then show "is_digit (digit_char d)"
    by (elim disjE) (simp_all add: digit_char_def is_digit_def)
  from d show "digit_val (digit_char d) = d"
    by (elim disjE) (simp_all add: digit_char_def digit_val_def)
qed

lemma is_digit_not_point: "is_digit c \<Longrightarrow> c \<noteq> CHR ''.'' \<and> c \<noteq> CHR ''-''"
  by (auto simp: is_digit_def)

lemma digit_val_zero: "digit_val (CHR ''0'') = 0"
  by (simp add: digit_val_def)

lemma is_digit_zero: "is_digit (CHR ''0'')"
  by (simp add: is_digit_def)

lemma foldl_digits:
  "foldl (\<lambda>a c. a * 10 + digit_val c) a ds =
   a * 10 ^ length ds + foldl (\<lambda>a c. a * 10 + digit_val c) 0 ds"
proof -
  define f where "f = (\<lambda>a c. a * 10 + digit_val c)"
  have "foldl f a ds = a * 10 ^ length ds + foldl f 0 ds" for a
  proof (induction ds arbitrary: a)
    case Nil
    then show ?case by simp
  next
    case (Cons c ds)
    have "foldl f a (c # ds) = foldl f (a * 10 + digit_val c) ds"
      by (simp add: f_def)
    also have "\<dots> = (a * 10 + digit_val c) * 10 ^ length ds + foldl f 0 ds"
      by (rule Cons.IH)
    also have "\<dots> = a * 10 ^ length (c # ds) + (digit_val c * 10 ^ length ds + foldl f 0 ds)"
      by (simp add: algebra_simps)
    also have "digit_val c * 10 ^ length ds + foldl f 0 ds = foldl f (digit_val c) ds"
      by (rule Cons.IH [symmetric])
    also have "foldl f (digit_val c) ds = foldl f 0 (c # ds)"
      by (simp add: f_def)
    finally show ?case .
  qed
  then show ?thesis unfolding f_def .
qed

lemma nat_of_digits_append:
  "nat_of_digits (xs @ ys) = nat_of_digits xs * 10 ^ length ys + nat_of_digits ys"
  unfolding nat_of_digits_def by (simp add: foldl_digits [of "foldl _ 0 xs"])

lemma nat_of_digits_simps:
  "nat_of_digits [] = 0"
  "nat_of_digits [c] = digit_val c"
  by (simp_all add: nat_of_digits_def)

lemma nat_of_digits_Cons:
  "nat_of_digits (c # ds) = digit_val c * 10 ^ length ds + nat_of_digits ds"
  using nat_of_digits_append [of "[c]" ds] by (simp add: nat_of_digits_simps)

lemma nat_of_digits_zeros: "nat_of_digits (replicate k (CHR ''0'')) = 0"
  by (induction k) (simp_all add: nat_of_digits_simps nat_of_digits_Cons digit_val_zero)

lemma dec_digits_props:
  "list_all is_digit (dec_digits n) \<and> nat_of_digits (dec_digits n) = n \<and> dec_digits n \<noteq> []"
proof (induction n rule: dec_digits.induct)
  case (1 n)
  show ?case
  proof (cases "n < 10")
    case True
    then show ?thesis
      by (simp add: dec_digits.simps [of n] digit_char_props nat_of_digits_simps)
  next
    case False
    have m: "n mod 10 < 10" by simp
    from False 1 show ?thesis
      by (simp add: dec_digits.simps [of n] digit_char_props [OF m] nat_of_digits_append
          nat_of_digits_simps)
  qed
qed


lemma pad_zeros_props:
  assumes "list_all is_digit m" "m \<noteq> []"
  shows "list_all is_digit (pad_zeros f m)" "nat_of_digits (pad_zeros f m) = nat_of_digits m"
    "f < length (pad_zeros f m)"
  using assms
  by (auto simp: pad_zeros_def nat_of_digits_append nat_of_digits_zeros is_digit_zero list_all_iff)

lemma insert_point_split:
  assumes "list_all is_digit m" "m \<noteq> []" "0 < f"
  obtains ip fp where "insert_point f m = ip @ ''.'' @ fp" "list_all is_digit ip" "ip \<noteq> []"
    "list_all is_digit fp" "length fp = f"
    "nat_of_digits ip * 10 ^ f + nat_of_digits fp = nat_of_digits m"
proof -
  define p where "p = pad_zeros f m"
  define ip where "ip = take (length p - f) p"
  define fp where "fp = drop (length p - f) p"
  note pp = pad_zeros_props [OF assms(1,2), of f, folded p_def]
  have p: "p = ip @ fp" by (simp add: ip_def fp_def)
  have 1: "insert_point f m = ip @ ''.'' @ fp"
    using assms(3) by (simp add: insert_point_def ip_def fp_def p_def)
  have 2: "list_all is_digit ip" "list_all is_digit fp"
    using pp(1) by (auto simp: ip_def fp_def list_all_iff dest: in_set_takeD in_set_dropD)
  have 3: "ip \<noteq> []" using pp(3) by (auto simp: ip_def)
  have 4: "length fp = f" using pp(3) by (simp add: fp_def)
  have "nat_of_digits ip * 10 ^ length fp + nat_of_digits fp = nat_of_digits p"
    by (simp add: p nat_of_digits_append)
  then have 5: "nat_of_digits ip * 10 ^ f + nat_of_digits fp = nat_of_digits m"
    by (simp add: 4 pp(2))
  from that [OF 1 2(1) 3 2(2) 4 5] show thesis .
qed

lemma strip_fraction:
  assumes "list_all is_digit fp"
  obtains z k where
    "strip_trailing_dot (strip_trailing_zeros (a @ ''.'' @ fp)) = (if z = [] then a else a @ ''.'' @ z)"
    "list_all is_digit z" "fp = z @ replicate k (CHR ''0'')"
proof -
  define P where "P = (\<lambda>c. c = CHR ''0'')"
  define z where "z = rev (dropWhile P (rev fp))"
  define k where "k = length (takeWhile P (rev fp))"
  have tw: "takeWhile P (rev fp) = replicate k (CHR ''0'')"
  proof -
    have "\<forall>c \<in> set (takeWhile P (rev fp)). c = CHR ''0''"
      by (auto simp: P_def dest: set_takeWhileD)
    then show ?thesis
      unfolding k_def by (metis replicate_eqI)
  qed
  have "rev fp = takeWhile P (rev fp) @ dropWhile P (rev fp)" by simp
  then have "rev (rev fp) = rev (takeWhile P (rev fp) @ dropWhile P (rev fp))" by simp
  then have 3: "fp = z @ replicate k (CHR ''0'')"
    by (simp add: z_def tw)
  have 2: "list_all is_digit z"
    using assms by (auto simp: z_def list_all_iff dest: set_dropWhileD)
  have 1: "strip_trailing_dot (strip_trailing_zeros (a @ ''.'' @ fp))
      = (if z = [] then a else a @ ''.'' @ z)"
  proof (cases "z = []")
    case True
    then have "dropWhile P (rev fp) = []" by (simp add: z_def)
    then have "\<forall>c \<in> set (rev fp). P c" by (simp add: dropWhile_eq_Nil_conv)
    then have "dropWhile P (rev fp @ CHR ''.'' # rev a) = dropWhile P (CHR ''.'' # rev a)"
      by (intro dropWhile_append2) simp
    also have "\<dots> = CHR ''.'' # rev a"
      by (simp add: P_def)
    finally have "strip_trailing_zeros (a @ ''.'' @ fp) = a @ ''.''"
      by (simp add: strip_trailing_zeros_def P_def)
    with True show ?thesis by (simp add: strip_trailing_dot_def)
  next
    case False
    then have ne: "dropWhile P (rev fp) \<noteq> []" by (simp add: z_def)
    then obtain c where c: "c \<in> set (rev fp)" "\<not> P c"
      by (auto simp: dropWhile_eq_Nil_conv)
    then have "dropWhile P (rev fp @ CHR ''.'' # rev a) = dropWhile P (rev fp) @ CHR ''.'' # rev a"
      by (simp add: dropWhile_append1)
    then have sz: "strip_trailing_zeros (a @ ''.'' @ fp) = a @ ''.'' @ z"
      by (simp add: strip_trailing_zeros_def P_def z_def)
    have "last z = hd (dropWhile P (rev fp))"
      using ne by (simp add: z_def last_rev)
    moreover have "hd (dropWhile P (rev fp)) \<in> set z"
      using ne by (simp add: z_def)
    ultimately have "is_digit (last z)" using 2 by (simp add: list_all_iff)
    then have "last z \<noteq> CHR ''.''" by (simp add: is_digit_not_point)
    with False sz show ?thesis by (simp add: strip_trailing_dot_def)
  qed
  from that [OF 1 2 3] show thesis .
qed

lemma unsigned_value_digits:
  assumes "list_all is_digit ip" "ip \<noteq> []"
  shows "unsigned_value ip = Some (of_nat (nat_of_digits ip))"
proof -
  have "\<forall>c \<in> set ip. c \<noteq> CHR ''.''"
    using assms(1) by (auto simp: list_all_iff is_digit_not_point)
  then have t: "takeWhile (\<lambda>c. c \<noteq> CHR ''.'') ip = ip"
    and d: "dropWhile (\<lambda>c. c \<noteq> CHR ''.'') ip = []"
    by simp_all
  show ?thesis
    unfolding unsigned_value_def Let_def t d using assms by simp
qed

lemma unsigned_value_fraction:
  assumes "list_all is_digit ip" "ip \<noteq> []" "list_all is_digit z" "z \<noteq> []"
  shows "unsigned_value (ip @ ''.'' @ z)
    = Some (of_nat (nat_of_digits ip) + of_nat (nat_of_digits z) / 10 ^ length z)"
proof -
  have n: "\<And>c. c \<in> set ip \<Longrightarrow> c \<noteq> CHR ''.''"
    using assms(1) by (auto simp: list_all_iff is_digit_not_point)
  have "takeWhile (\<lambda>c. c \<noteq> CHR ''.'') (ip @ CHR ''.'' # z) = ip"
    using n by (simp add: takeWhile_append2)
  moreover have "dropWhile (\<lambda>c. c \<noteq> CHR ''.'') (ip @ CHR ''.'' # z) = CHR ''.'' # z"
    using n by (simp add: dropWhile_append2)
  ultimately show ?thesis
    unfolding append_Cons append_Nil unsigned_value_def Let_def using assms by simp
qed

lemma decimal_value_unsigned:
  assumes "t \<noteq> []" "is_digit (hd t)"
  shows "decimal_value t = unsigned_value t"
  using assms is_digit_not_point [of "hd t"]
  by (cases t) (simp_all add: decimal_value_def)


lemma round_scaled_nearest:
  assumes "0 \<le> y"
  shows "y * 10 ^ f - 1 / 2 < of_nat (round_scaled f y)"
    and "of_nat (round_scaled f y) \<le> y * 10 ^ f + 1 / 2"
proof -
  have "0 \<le> y * 10 ^ f + 1 / 2" using assms by simp
  then have "0 \<le> \<lfloor>y * 10 ^ f + 1 / 2\<rfloor>" by simp
  then have n: "(of_nat (round_scaled f y) :: rat) = of_int \<lfloor>y * 10 ^ f + 1 / 2\<rfloor>"
    by (simp add: round_scaled_def)
  show "y * 10 ^ f - 1 / 2 < of_nat (round_scaled f y)"
    unfolding n by linarith
  show "of_nat (round_scaled f y) \<le> y * 10 ^ f + 1 / 2"
    unfolding n by linarith
qed

lemma formatCoinAmount_value:
  assumes "\<bar>x\<bar> < 10 ^ 21"
  shows "decimal_value (formatCoinAmount (Fin x))
    = Some (sgn x * of_nat (round_scaled 8 \<bar>x\<bar>) / 10 ^ 8)"
proof -
  define n where "n = round_scaled 8 \<bar>x\<bar>"
  define sg where "sg = (if x < 0 then ''-'' else [])"
  note dd = dec_digits_props [of n]
  from dd obtain ip fp where
    ip: "insert_point 8 (dec_digits n) = ip @ ''.'' @ fp" "list_all is_digit ip" "ip \<noteq> []"
      "list_all is_digit fp" "length fp = 8"
      "nat_of_digits ip * 10 ^ 8 + nat_of_digits fp = nat_of_digits (dec_digits n)"
    using insert_point_split [of "dec_digits n" 8] by (metis zero_less_numeral)
  from strip_fraction [OF ip(4), of "sg @ ip"] obtain z k where
    z: "strip_trailing_dot (strip_trailing_zeros ((sg @ ip) @ ''.'' @ fp))
        = (if z = [] then sg @ ip else (sg @ ip) @ ''.'' @ z)"
      "list_all is_digit z" "fp = z @ replicate k (CHR ''0'')"
    by blast
  have tf: "toFixed 8 (Fin x) = (sg @ ip) @ ''.'' @ fp"
    using assms by (simp add: toFixed_def n_def [symmetric] ip(1) sg_def)
  then have fmt: "formatCoinAmount (Fin x) = (if z = [] then sg @ ip else (sg @ ip) @ ''.'' @ z)"
    by (simp add: formatCoinAmount_def isNaN_def Let_def z(1) [symmetric])
  define t where "t = (if z = [] then ip else ip @ ''.'' @ z)"
  have fmt': "formatCoinAmount (Fin x) = sg @ t"
    by (simp add: fmt t_def)
  have frac: "(of_nat (nat_of_digits z) :: rat) / 10 ^ length z = of_nat (nat_of_digits fp) / 10 ^ 8"
  proof -
    have l: "length z + k = 8" using ip(5) z(3) by simp
    have "nat_of_digits fp = nat_of_digits z * 10 ^ k"
      by (simp add: z(3) nat_of_digits_append nat_of_digits_zeros)
    then have "(of_nat (nat_of_digits fp) :: rat) / 10 ^ 8
        = of_nat (nat_of_digits z) * 10 ^ k / 10 ^ (length z + k)"
      by (simp add: l)
    also have "\<dots> = of_nat (nat_of_digits z) / 10 ^ length z"
      by (simp add: power_add)
    finally show ?thesis by simp
  qed
  have whole: "(of_nat (nat_of_digits ip) :: rat) + of_nat (nat_of_digits fp) / 10 ^ 8
      = of_nat n / 10 ^ 8"
  proof -
    have "(of_nat n :: rat) = of_nat (nat_of_digits ip * 10 ^ 8 + nat_of_digits fp)"
      using ip(6) dd by simp
    then show ?thesis by (simp add: field_simps)
  qed
  have uv: "unsigned_value t = Some (of_nat n / 10 ^ 8)"
  proof (cases "z = []")
    case True
    then have "nat_of_digits fp = 0" by (simp add: z(3) nat_of_digits_zeros)
    with whole have "(of_nat (nat_of_digits ip) :: rat) = of_nat n / 10 ^ 8" by simp
    with True show ?thesis
      by (simp add: t_def unsigned_value_digits [OF ip(2,3)])
  next
    case False
    then have "unsigned_value t = unsigned_value (ip @ ''.'' @ z)"
      by (simp add: t_def)
    also have "\<dots> = Some (of_nat (nat_of_digits ip) + of_nat (nat_of_digits z) / 10 ^ length z)"
      by (rule unsigned_value_fraction [OF ip(2,3) z(2) False])
    also have "\<dots> = Some (of_nat n / 10 ^ 8)"
      by (simp only: frac whole)
    finally show ?thesis .
  qed
  have t: "t \<noteq> []" "is_digit (hd t)"
    using ip(2,3) by (cases ip; simp add: t_def)+
  show ?thesis
  proof (cases "x < 0")
    case True
    then have "decimal_value (formatCoinAmount (Fin x)) = map_option uminus (unsigned_value t)"
      by (simp add: fmt' sg_def decimal_value_def)
    with True show ?thesis by (simp add: uv n_def sgn_if)
  next
    case False
    then have d: "decimal_value (formatCoinAmount (Fin x)) = unsigned_value t"
      by (simp add: fmt' sg_def decimal_value_unsigned [OF t])
    have e: "decimal_value (formatCoinAmount (Fin x)) = Some (of_nat n / 10 ^ 8)"
      using d uv by simp
    have "sgn x * of_nat (round_scaled 8 \<bar>x\<bar>) / 10 ^ 8 = (of_nat n :: rat) / 10 ^ 8"
    proof (cases "x = 0")
      case True
      then show ?thesis by (simp add: n_def round_scaled_def)
    next
      case False
      with \<open>\<not> x < 0\<close> have "0 < x" by simp
      then show ?thesis by (simp add: n_def sgn_if)
    qed
    then show ?thesis unfolding e by simp
  qed
qed


lemma toApiFormat_formatCoinAmount:
  assumes "\<bar>x\<bar> < 10 ^ 21"
  shows "toApiFormat (Fin x) = formatCoinAmount (Fin x)"
proof -
  define n where "n = round_scaled 8 \<bar>x\<bar>"
  define sg where "sg = (if x < 0 then ''-'' else [])"
  note dd = dec_digits_props [of n]
  from dd obtain ip fp where
    ip: "insert_point 8 (dec_digits n) = ip @ ''.'' @ fp" "length fp = 8"
    using insert_point_split [of "dec_digits n" 8] by (metis zero_less_numeral)
  define a where "a = sg @ ip"
  have tf: "toFixed 8 (Fin x) = a @ ''.'' @ fp"
    using assms by (simp add: toFixed_def n_def [symmetric] ip(1) sg_def a_def)
  have len: "length (a @ ''.'' @ fp) - 9 = length a" using ip(2) by simp
  have dot: "CHR ''.'' \<in> set (a @ ''.'' @ fp)" by simp
  show ?thesis
  proof (cases "fp = ''00000000''")
    case True
    have "strip_trailing_dot (strip_trailing_zeros (a @ ''.'' @ fp)) = a"
      by (simp add: True strip_trailing_zeros_def strip_trailing_dot_def)
    then have "formatCoinAmount (Fin x) = a"
      unfolding formatCoinAmount_def Let_def tf using dot by (simp add: isNaN_def)
    moreover have "toApiFormat (Fin x) = a"
      unfolding toApiFormat_def Let_def tf len using True by (simp add: isNaN_def)
    ultimately show ?thesis by simp
  next
    case False
    have "toApiFormat (Fin x) = strip_trailing_dot (strip_trailing_zeros (a @ ''.'' @ fp))"
      unfolding toApiFormat_def Let_def tf len using False by (simp add: isNaN_def)
    moreover have "formatCoinAmount (Fin x)
        = strip_trailing_dot (strip_trailing_zeros (a @ ''.'' @ fp))"
      unfolding formatCoinAmount_def Let_def tf using dot by (simp add: isNaN_def)
    ultimately show ?thesis by simp
  qed
qed

section \<open>Reading a trace piece by piece\<close>

lemma jobs_simps:
  "jobs [] = []"
  "jobs (e # es) = (case e of Submitted u ty hs he \<Rightarrow> [Job u ty hs he] | _ \<Rightarrow> []) @ jobs es"
  "jobs (tr @ es) = jobs tr @ jobs es"
  by (simp_all add: jobs_def)

lemma submitted_simps:
  "submitted [] = []"
  "submitted (e # es) = (case e of Submitted u ty hs he \<Rightarrow> [(u, ty)] | _ \<Rightarrow> []) @ submitted es"
  "submitted (tr @ es) = submitted tr @ submitted es"
  by (simp_all add: submitted_def)

lemma started_simps:
  "started [] = []"
  "started (e # es) =
     (case e of StatusWritten u st \<Rightarrow> if st = processing then [u] else [] | _ \<Rightarrow> []) @ started es"
  "started (tr @ es) = started tr @ started es"
  by (simp_all add: started_def)

lemma shifted_simps:
  "shifted [] = []"
  "shifted (e # es) =
     (case e of
        StatusWritten u st \<Rightarrow> if st = processing then [u] else []
      | WriteRejected u st \<Rightarrow> if st = processing then [u] else []
      | _ \<Rightarrow> []) @ shifted es"
  "shifted (tr @ es) = shifted tr @ shifted es"
  by (simp_all add: shifted_def)

lemma posted_simps:
  "posted [] = []"
  "posted (e # es) = (case e of Posted u r \<Rightarrow> [(u, r)] | _ \<Rightarrow> []) @ posted es"
  "posted (tr @ es) = posted tr @ posted es"
  by (simp_all add: posted_def)

lemma statuses_written_simps:
  "statuses_written [] u = []"
  "statuses_written (e # es) u =
     (case e of StatusWritten v st \<Rightarrow> if v = u then [st] else [] | _ \<Rightarrow> []) @
     statuses_written es u"
  "statuses_written (tr @ es) u = statuses_written tr u @ statuses_written es u"
  by (simp_all add: statuses_written_def)

lemma rejected_simps:
  "rejected [] = []"
  "rejected (e # es) =
     (case e of InsertRejected u \<Rightarrow> [u] | WriteRejected u st \<Rightarrow> [u] | _ \<Rightarrow> []) @ rejected es"
  "rejected (tr @ es) = rejected tr @ rejected es"
  by (simp_all add: rejected_def)

lemma escaped_simps:
  "escaped [] = []"
  "escaped (e # es) = (case e of Escaped u m \<Rightarrow> [u] | _ \<Rightarrow> []) @ escaped es"
  "escaped (tr @ es) = escaped tr @ escaped es"
  by (simp_all add: escaped_def)

lemma status_of_append:
  "status_of (tr @ es) u =
     (if statuses_written es u = [] then status_of tr u else last (statuses_written es u))"
  by (simp add: status_of_def statuses_written_simps)

lemma follow_append:
  "follow st (tr @ es) = (case follow st tr of None \<Rightarrow> None | Some st1 \<Rightarrow> follow st1 es)"
  by (induction tr arbitrary: st) (auto split: option.splits)

lemmas trace_simps = jobs_simps submitted_simps started_simps shifted_simps posted_simps
  statuses_written_simps rejected_simps escaped_simps status_of_append follow_append

lemma submitted_jobs: "submitted tr = map (\<lambda>j. (job_id j, job_type j)) (jobs tr)"
  by (induction tr) (auto simp: trace_simps split: event.splits)

lemma taken_length:
  "map job_id (taken tr) = shifted tr \<Longrightarrow> length (taken tr) = length (shifted tr)"
  by (metis length_map)

lemma taken_le:
  "map job_id (taken tr) = shifted tr \<Longrightarrow> length (shifted tr) \<le> length (jobs tr)"
  using taken_length [of tr] by (simp add: taken_def)

lemma taken_unchanged:
  "map job_id (taken tr) = shifted tr \<Longrightarrow> shifted es = [] \<Longrightarrow> taken (tr @ es) = taken tr"
  using taken_le [of tr] by (simp add: taken_def trace_simps)

lemma taken_shifted:
  assumes "jobs tr = taken tr @ k # rest" "map job_id (taken tr) = shifted tr"
    "shifted es = [u]" "jobs es = []"
  shows "taken (tr @ es) = taken tr @ [k]"
proof -
  have l: "length (taken tr) = length (shifted tr)" using assms(2) by (rule taken_length)
  have "taken (tr @ es) = take (Suc (length (shifted tr))) (jobs tr)"
    using assms(3,4) by (simp add: taken_def trace_simps)
  also have "\<dots> = take (Suc (length (taken tr))) (taken tr @ k # rest)"
    using assms(1) l by simp
  also have "\<dots> = taken tr @ [k]" by simp
  finally show ?thesis .
qed

lemma called_simps:
  "called [] = []"
  "called (e # es) = (case e of Posted u r \<Rightarrow> [u] | _ \<Rightarrow> []) @ called es"
  "called (tr @ es) = called tr @ called es"
  by (simp_all add: called_def posted_simps split: event.splits)

lemma due_unchanged:
  "map job_id (taken tr) = shifted tr \<Longrightarrow> shifted es = [] \<Longrightarrow> due (tr @ es) = due tr"
  by (simp add: due_def taken_unchanged)

lemma due_shifted:
  "taken (tr @ es) = taken tr @ [k] \<Longrightarrow>
     due (tr @ es) = due tr @ (if known_kind (job_type k) then [job_id k] else [])"
  by (simp add: due_def)

text \<open>One call of \<^verbatim>\<open>process\<close> at most is suspended, and a step resumes that one.\<close>

lemma one_drain_cases:
  assumes "one_drain s" "i < length (drains s)"
  obtains d where "drains s = [d]" "i = 0"
proof -
  from assms have "length (drains s) = 1" "i = 0" by (auto simp: one_drain_def)
  then show ?thesis using that by (cases "drains s") auto
qed

lemma resume_one:
  assumes "resume i k s = Some s'" "one_drain s"
  obtains d pc s1 where "drains s = [d]" "k d s = Some (pc, s1)"
    "s' = s1\<lparr>drains := (case pc of None \<Rightarrow> remove_nth 0 (drains s1) | Some p \<Rightarrow> (drains s1)[0 := p])\<rparr>"
proof -
  from assms(1) have i: "i < length (drains s)" by (auto simp: resume_def split: if_splits)
  from one_drain_cases [OF assms(2) i] obtain d where d: "drains s = [d]" "i = 0" by blast
  from assms(1) d obtain pc s1 where "k d s = Some (pc, s1)"
    "s' = s1\<lparr>drains := (case pc of None \<Rightarrow> remove_nth 0 (drains s1) | Some p \<Rightarrow> (drains s1)[0 := p])\<rparr>"
    by (auto simp: resume_def split: option.splits)
  with d(1) that show ?thesis by blast
qed

lemma processItem_known:
  "(\<exists>req. processItem item = Inr req) = known_kind (type item)"
  "(\<exists>e. processItem item = Inl e) = (\<not> known_kind (type item))"
  "processItem item = Inl e \<Longrightarrow> e = UnknownJobKind (type item)"
  by (auto simp: processItem_def known_kind_def split: if_splits)

section \<open>One call of process\<close>

lemma one_drain_initial: "one_drain (PaymentQueue rows w)"
  by (simp add: one_drain_def PaymentQueue_def status_of_def statuses_written_def)

lemma one_drain_add: "one_drain s \<Longrightarrow> one_drain (add item uuid now s)"
  unfolding one_drain_def add_def emit_def Let_def
  by (auto simp: trace_simps)

lemma one_drain_insert_done: "one_drain s \<Longrightarrow> insert_done i s = Some s' \<Longrightarrow> one_drain s'"
  unfolding one_drain_def insert_done_def process_def loop_head_def Let_def
  by (auto simp: in_flight_def split: if_splits list.splits)

lemma one_drain_insert_failed: "one_drain s \<Longrightarrow> insert_failed i s = Some s' \<Longrightarrow> one_drain s'"
  unfolding one_drain_def insert_failed_def emit_def
  by (auto simp: trace_simps split: if_splits)

lemma one_drain_db_done:
  assumes "one_drain s" "resume i db_done s = Some s'"
  shows "one_drain s'"
proof -
  from resume_one [OF assms(2,1)] obtain d pc s1 where
    r: "drains s = [d]" "db_done d s = Some (pc, s1)"
      "s' = s1\<lparr>drains := (case pc of None \<Rightarrow> remove_nth 0 (drains s1) | Some p \<Rightarrow> (drains s1)[0 := p])\<rparr>"
    by blast
  show ?thesis
    using assms(1) r unfolding one_drain_def db_done_def catch_block_def start_delay_def emit_def Let_def
    by (cases d)
       (auto simp: in_flight_def trace_simps remove_nth_def
         split: if_splits sum.splits option.splits)
qed

lemma one_drain_db_failed:
  assumes "one_drain s" "resume i (db_failed msg) s = Some s'"
  shows "one_drain s'"
proof -
  from resume_one [OF assms(2,1)] obtain d pc s1 where
    r: "drains s = [d]" "db_failed msg d s = Some (pc, s1)"
      "s' = s1\<lparr>drains := (case pc of None \<Rightarrow> remove_nth 0 (drains s1) | Some p \<Rightarrow> (drains s1)[0 := p])\<rparr>"
    by blast
  show ?thesis
    using assms(1) r unfolding one_drain_def db_failed_def catch_block_def start_delay_def emit_def
      loop_head_def Let_def
    by (cases d)
       (auto simp: in_flight_def trace_simps remove_nth_def
         split: if_splits sum.splits option.splits completion.splits list.splits)
qed

lemma one_drain_post_done:
  assumes "one_drain s" "resume i (post_done out) s = Some s'"
  shows "one_drain s'"
proof -
  from resume_one [OF assms(2,1)] obtain d pc s1 where
    r: "drains s = [d]" "post_done out d s = Some (pc, s1)"
      "s' = s1\<lparr>drains := (case pc of None \<Rightarrow> remove_nth 0 (drains s1) | Some p \<Rightarrow> (drains s1)[0 := p])\<rparr>"
    by blast
  show ?thesis
    using assms(1) r unfolding one_drain_def post_done_def catch_block_def start_delay_def emit_def
      loop_head_def Let_def
    by (cases d)
       (auto simp: in_flight_def trace_simps remove_nth_def
         split: if_splits sum.splits option.splits completion.splits list.splits)
qed

lemma one_drain_continuation_done:
  assumes "one_drain s" "resume i continuation_done s = Some s'"
  shows "one_drain s'"
proof -
  from resume_one [OF assms(2,1)] obtain d pc s1 where
    r: "drains s = [d]" "continuation_done d s = Some (pc, s1)"
      "s' = s1\<lparr>drains := (case pc of None \<Rightarrow> remove_nth 0 (drains s1) | Some p \<Rightarrow> (drains s1)[0 := p])\<rparr>"
    by blast
  show ?thesis
    using assms(1) r unfolding one_drain_def continuation_done_def catch_block_def start_delay_def emit_def
      loop_head_def Let_def
    by (cases d)
       (auto simp: in_flight_def trace_simps remove_nth_def
         split: if_splits sum.splits option.splits completion.splits list.splits)
qed

lemma one_drain_timer_fired:
  assumes "one_drain s" "resume i timer_fired s = Some s'"
  shows "one_drain s'"
proof -
  from resume_one [OF assms(2,1)] obtain d pc s1 where
    r: "drains s = [d]" "timer_fired d s = Some (pc, s1)"
      "s' = s1\<lparr>drains := (case pc of None \<Rightarrow> remove_nth 0 (drains s1) | Some p \<Rightarrow> (drains s1)[0 := p])\<rparr>"
    by blast
  show ?thesis
    using assms(1) r unfolding one_drain_def timer_fired_def catch_block_def start_delay_def emit_def
      loop_head_def Let_def
    by (cases d)
       (auto simp: in_flight_def trace_simps remove_nth_def
         split: if_splits sum.splits option.splits completion.splits list.splits)
qed

lemma one_drain_step: "one_drain s \<Longrightarrow> step l s = Some s' \<Longrightarrow> one_drain s'"
  by (cases l)
     (auto intro: one_drain_add one_drain_insert_done one_drain_insert_failed one_drain_db_done
       one_drain_db_failed one_drain_post_done one_drain_continuation_done
       one_drain_timer_fired)

section \<open>The trace is one of the serial processor\<close>

lemma in_phase_initial: "in_phase (PaymentQueue rows w)"
  by (simp add: in_phase_def PaymentQueue_def taking_def phase_of_def)

lemma in_phase_add: "in_phase s \<Longrightarrow> in_phase (add item uuid now s)"
  unfolding in_phase_def add_def emit_def Let_def
  by (auto simp: trace_simps phase_of_def job_of_def)

lemma in_phase_insert_done:
  "in_phase s \<Longrightarrow> one_drain s \<Longrightarrow> insert_done i s = Some s' \<Longrightarrow> in_phase s'"
  unfolding in_phase_def one_drain_def insert_done_def process_def loop_head_def Let_def
  by (auto simp: phase_of_def phase_of_suspended_def taking_def
      split: if_splits list.splits)

lemma in_phase_insert_failed: "in_phase s \<Longrightarrow> insert_failed i s = Some s' \<Longrightarrow> in_phase s'"
  unfolding in_phase_def insert_failed_def emit_def
  by (auto simp: trace_simps phase_of_def split: if_splits)

lemma in_phase_db_done:
  assumes "in_phase s" "one_drain s" "resume i db_done s = Some s'"
  shows "in_phase s'"
proof -
  from resume_one [OF assms(3,2)] obtain d pc s1 where
    r: "drains s = [d]" "db_done d s = Some (pc, s1)"
      "s' = s1\<lparr>drains := (case pc of None \<Rightarrow> remove_nth 0 (drains s1) | Some p \<Rightarrow> (drains s1)[0 := p])\<rparr>"
    by blast
  from assms(2) r(1) have p: "isProcessing s" by (simp add: one_drain_def)
  show ?thesis
    using assms(1) r p processItem_known [of "hd (suspended_item d)"]
    unfolding in_phase_def db_done_def catch_block_def start_delay_def emit_def
      loop_head_def Let_def
    by (cases d)
       (auto simp: trace_simps remove_nth_def phase_of_def phase_of_suspended_def taking_def
         job_of_def suspended_item_def
         split: if_splits sum.splits option.splits completion.splits list.splits)
qed

lemma in_phase_db_failed:
  assumes "in_phase s" "one_drain s" "resume i (db_failed msg) s = Some s'"
  shows "in_phase s'"
proof -
  from resume_one [OF assms(3,2)] obtain d pc s1 where
    r: "drains s = [d]" "db_failed msg d s = Some (pc, s1)"
      "s' = s1\<lparr>drains := (case pc of None \<Rightarrow> remove_nth 0 (drains s1) | Some p \<Rightarrow> (drains s1)[0 := p])\<rparr>"
    by blast
  from assms(2) r(1) have p: "isProcessing s" by (simp add: one_drain_def)
  show ?thesis
    using assms(1) r p processItem_known [of "hd (suspended_item d)"]
    unfolding in_phase_def db_failed_def catch_block_def start_delay_def emit_def
      loop_head_def Let_def
    by (cases d)
       (auto simp: trace_simps remove_nth_def phase_of_def phase_of_suspended_def taking_def
         job_of_def suspended_item_def
         split: if_splits sum.splits option.splits completion.splits list.splits)
qed

lemma in_phase_post_done:
  assumes "in_phase s" "one_drain s" "resume i (post_done out) s = Some s'"
  shows "in_phase s'"
proof -
  from resume_one [OF assms(3,2)] obtain d pc s1 where
    r: "drains s = [d]" "post_done out d s = Some (pc, s1)"
      "s' = s1\<lparr>drains := (case pc of None \<Rightarrow> remove_nth 0 (drains s1) | Some p \<Rightarrow> (drains s1)[0 := p])\<rparr>"
    by blast
  from assms(2) r(1) have p: "isProcessing s" by (simp add: one_drain_def)
  show ?thesis
    using assms(1) r p processItem_known [of "hd (suspended_item d)"]
    unfolding in_phase_def post_done_def catch_block_def start_delay_def emit_def
      loop_head_def Let_def
    by (cases d)
       (auto simp: trace_simps remove_nth_def phase_of_def phase_of_suspended_def taking_def
         job_of_def suspended_item_def
         split: if_splits sum.splits option.splits completion.splits list.splits)
qed

lemma in_phase_continuation_done:
  assumes "in_phase s" "one_drain s" "resume i continuation_done s = Some s'"
  shows "in_phase s'"
proof -
  from resume_one [OF assms(3,2)] obtain d pc s1 where
    r: "drains s = [d]" "continuation_done d s = Some (pc, s1)"
      "s' = s1\<lparr>drains := (case pc of None \<Rightarrow> remove_nth 0 (drains s1) | Some p \<Rightarrow> (drains s1)[0 := p])\<rparr>"
    by blast
  from assms(2) r(1) have p: "isProcessing s" by (simp add: one_drain_def)
  show ?thesis
    using assms(1) r p processItem_known [of "hd (suspended_item d)"]
    unfolding in_phase_def continuation_done_def catch_block_def start_delay_def emit_def
      loop_head_def Let_def
    by (cases d)
       (auto simp: trace_simps remove_nth_def phase_of_def phase_of_suspended_def taking_def
         job_of_def suspended_item_def
         split: if_splits sum.splits option.splits completion.splits list.splits)
qed

lemma in_phase_timer_fired:
  assumes "in_phase s" "one_drain s" "resume i timer_fired s = Some s'"
  shows "in_phase s'"
proof -
  from resume_one [OF assms(3,2)] obtain d pc s1 where
    r: "drains s = [d]" "timer_fired d s = Some (pc, s1)"
      "s' = s1\<lparr>drains := (case pc of None \<Rightarrow> remove_nth 0 (drains s1) | Some p \<Rightarrow> (drains s1)[0 := p])\<rparr>"
    by blast
  from assms(2) r(1) have p: "isProcessing s" by (simp add: one_drain_def)
  show ?thesis
    using assms(1) r p processItem_known [of "hd (suspended_item d)"]
    unfolding in_phase_def timer_fired_def catch_block_def start_delay_def emit_def
      loop_head_def Let_def
    by (cases d)
       (auto simp: trace_simps remove_nth_def phase_of_def phase_of_suspended_def taking_def
         job_of_def suspended_item_def
         split: if_splits sum.splits option.splits completion.splits list.splits)
qed

lemma in_phase_step:
  "in_phase s \<Longrightarrow> one_drain s \<Longrightarrow> step l s = Some s' \<Longrightarrow> in_phase s'"
  by (cases l)
     (auto intro: in_phase_add in_phase_insert_done in_phase_insert_failed in_phase_db_done
       in_phase_db_failed in_phase_post_done in_phase_continuation_done
       in_phase_timer_fired)

section \<open>Jobs are taken and posted in submission order\<close>

lemma in_order_initial: "in_order (PaymentQueue rows w)"
  by (simp add: in_order_def PaymentQueue_def taking_def jobs_def shifted_def posted_def
      taken_def rejected_def called_def due_def)

lemma in_order_add: "in_order s \<Longrightarrow> in_order (add item uuid now s)"
  unfolding in_order_def add_def emit_def Let_def
  by (auto simp: trace_simps taken_unchanged due_unchanged called_simps job_of_def)

lemma in_order_insert_done:
  "in_order s \<Longrightarrow> one_drain s \<Longrightarrow> insert_done i s = Some s' \<Longrightarrow> in_order s'"
  unfolding in_order_def one_drain_def insert_done_def process_def loop_head_def Let_def
  by (auto simp: taking_def split: if_splits list.splits)

lemma in_order_insert_failed: "in_order s \<Longrightarrow> insert_failed i s = Some s' \<Longrightarrow> in_order s'"
  unfolding in_order_def insert_failed_def emit_def
  by (auto simp: trace_simps taken_unchanged due_unchanged called_simps split: if_splits)

lemma in_order_taking:
  assumes "in_order s" "drains s = [AwaitMarkProcessing it]" "shifted es = [u]" "jobs es = []"
  shows "taken (trace s @ es) = taken (trace s) @ [job_of it]"
proof -
  from assms(1,2)
  have sub: "jobs (trace s) = taken (trace s) @ job_of it # map job_of (queue s)"
    and tk: "map job_id (taken (trace s)) = shifted (trace s)"
    by (auto simp: in_order_def taking_def)
  from taken_shifted [OF sub tk assms(3,4)] show ?thesis .
qed

lemma in_order_db_done:
  assumes "in_order s" "one_drain s" "resume i db_done s = Some s'"
  shows "in_order s'"
proof -
  from resume_one [OF assms(3,2)] obtain d pc s1 where
    r: "drains s = [d]" "db_done d s = Some (pc, s1)"
      "s' = s1\<lparr>drains := (case pc of None \<Rightarrow> remove_nth 0 (drains s1) | Some p \<Rightarrow> (drains s1)[0 := p])\<rparr>"
    by blast
  show ?thesis
  proof (cases d)
    case (AwaitMarkProcessing it)
    note t = in_order_taking [OF assms(1) r(1) [unfolded AwaitMarkProcessing]]
    show ?thesis
      using assms(1) r AwaitMarkProcessing processItem_known [of it]
      unfolding in_order_def db_done_def catch_block_def start_delay_def emit_def
        loop_head_def Let_def
      by (auto simp: trace_simps remove_nth_def taking_def job_of_def t due_shifted [OF t]
          called_simps
          split: if_splits sum.splits option.splits completion.splits list.splits)
  qed (use assms(1) r in \<open>auto simp: in_order_def db_done_def catch_block_def start_delay_def
        emit_def loop_head_def Let_def trace_simps remove_nth_def taking_def taken_unchanged
        due_unchanged called_simps
        split: if_splits sum.splits option.splits completion.splits list.splits\<close>)
qed

lemma in_order_db_failed:
  assumes "in_order s" "one_drain s" "resume i (db_failed msg) s = Some s'"
  shows "in_order s'"
proof -
  from resume_one [OF assms(3,2)] obtain d pc s1 where
    r: "drains s = [d]" "db_failed msg d s = Some (pc, s1)"
      "s' = s1\<lparr>drains := (case pc of None \<Rightarrow> remove_nth 0 (drains s1) | Some p \<Rightarrow> (drains s1)[0 := p])\<rparr>"
    by blast
  show ?thesis
  proof (cases d)
    case (AwaitMarkProcessing it)
    note t = in_order_taking [OF assms(1) r(1) [unfolded AwaitMarkProcessing]]
    show ?thesis
      using assms(1) r AwaitMarkProcessing processItem_known [of it]
      unfolding in_order_def db_failed_def catch_block_def start_delay_def emit_def
        loop_head_def Let_def
      by (auto simp: trace_simps remove_nth_def taking_def job_of_def t due_shifted [OF t]
          called_simps
          split: if_splits sum.splits option.splits completion.splits list.splits)
  qed (use assms(1) r in \<open>auto simp: in_order_def db_failed_def catch_block_def start_delay_def
        emit_def loop_head_def Let_def trace_simps remove_nth_def taking_def taken_unchanged
        due_unchanged called_simps
        split: if_splits sum.splits option.splits completion.splits list.splits\<close>)
qed

lemma in_order_post_done:
  assumes "in_order s" "one_drain s" "resume i (post_done out) s = Some s'"
  shows "in_order s'"
proof -
  from resume_one [OF assms(3,2)] obtain d pc s1 where
    r: "drains s = [d]" "post_done out d s = Some (pc, s1)"
      "s' = s1\<lparr>drains := (case pc of None \<Rightarrow> remove_nth 0 (drains s1) | Some p \<Rightarrow> (drains s1)[0 := p])\<rparr>"
    by blast
  show ?thesis
  proof (cases d)
    case (AwaitMarkProcessing it)
    note t = in_order_taking [OF assms(1) r(1) [unfolded AwaitMarkProcessing]]
    show ?thesis
      using assms(1) r AwaitMarkProcessing processItem_known [of it]
      unfolding in_order_def post_done_def catch_block_def start_delay_def emit_def
        loop_head_def Let_def
      by (auto simp: trace_simps remove_nth_def taking_def job_of_def t due_shifted [OF t]
          called_simps
          split: if_splits sum.splits option.splits completion.splits list.splits)
  qed (use assms(1) r in \<open>auto simp: in_order_def post_done_def catch_block_def start_delay_def
        emit_def loop_head_def Let_def trace_simps remove_nth_def taking_def taken_unchanged
        due_unchanged called_simps
        split: if_splits sum.splits option.splits completion.splits list.splits\<close>)
qed

lemma in_order_continuation_done:
  assumes "in_order s" "one_drain s" "resume i continuation_done s = Some s'"
  shows "in_order s'"
proof -
  from resume_one [OF assms(3,2)] obtain d pc s1 where
    r: "drains s = [d]" "continuation_done d s = Some (pc, s1)"
      "s' = s1\<lparr>drains := (case pc of None \<Rightarrow> remove_nth 0 (drains s1) | Some p \<Rightarrow> (drains s1)[0 := p])\<rparr>"
    by blast
  show ?thesis
  proof (cases d)
    case (AwaitMarkProcessing it)
    note t = in_order_taking [OF assms(1) r(1) [unfolded AwaitMarkProcessing]]
    show ?thesis
      using assms(1) r AwaitMarkProcessing processItem_known [of it]
      unfolding in_order_def continuation_done_def catch_block_def start_delay_def emit_def
        loop_head_def Let_def
      by (auto simp: trace_simps remove_nth_def taking_def job_of_def t due_shifted [OF t]
          called_simps
          split: if_splits sum.splits option.splits completion.splits list.splits)
  qed (use assms(1) r in \<open>auto simp: in_order_def continuation_done_def catch_block_def start_delay_def
        emit_def loop_head_def Let_def trace_simps remove_nth_def taking_def taken_unchanged
        due_unchanged called_simps
        split: if_splits sum.splits option.splits completion.splits list.splits\<close>)
qed

lemma in_order_timer_fired:
  assumes "in_order s" "one_drain s" "resume i timer_fired s = Some s'"
  shows "in_order s'"
proof -
  from resume_one [OF assms(3,2)] obtain d pc s1 where
    r: "drains s = [d]" "timer_fired d s = Some (pc, s1)"
      "s' = s1\<lparr>drains := (case pc of None \<Rightarrow> remove_nth 0 (drains s1) | Some p \<Rightarrow> (drains s1)[0 := p])\<rparr>"
    by blast
  show ?thesis
  proof (cases d)
    case (AwaitMarkProcessing it)
    note t = in_order_taking [OF assms(1) r(1) [unfolded AwaitMarkProcessing]]
    show ?thesis
      using assms(1) r AwaitMarkProcessing processItem_known [of it]
      unfolding in_order_def timer_fired_def catch_block_def start_delay_def emit_def
        loop_head_def Let_def
      by (auto simp: trace_simps remove_nth_def taking_def job_of_def t due_shifted [OF t]
          called_simps
          split: if_splits sum.splits option.splits completion.splits list.splits)
  qed (use assms(1) r in \<open>auto simp: in_order_def timer_fired_def catch_block_def start_delay_def
        emit_def loop_head_def Let_def trace_simps remove_nth_def taking_def taken_unchanged
        due_unchanged called_simps
        split: if_splits sum.splits option.splits completion.splits list.splits\<close>)
qed

lemma in_order_step:
  "in_order s \<Longrightarrow> one_drain s \<Longrightarrow> step l s = Some s' \<Longrightarrow> in_order s'"
  by (cases l)
     (auto intro: in_order_add in_order_insert_done in_order_insert_failed in_order_db_done
       in_order_db_failed in_order_post_done in_order_continuation_done
       in_order_timer_fired)

section \<open>Nothing is left behind\<close>

lemma kept_going_initial: "kept_going (PaymentQueue rows w)"
  by (simp add: kept_going_def PaymentQueue_def)

lemma kept_going_add: "kept_going s \<Longrightarrow> kept_going (add item uuid now s)"
  unfolding kept_going_def add_def emit_def Let_def
  by (auto simp: trace_simps)

lemma kept_going_insert_done:
  "kept_going s \<Longrightarrow> one_drain s \<Longrightarrow> insert_done i s = Some s' \<Longrightarrow> kept_going s'"
  unfolding kept_going_def one_drain_def insert_done_def process_def loop_head_def Let_def
  by (auto split: if_splits list.splits)

lemma kept_going_insert_failed:
  "kept_going s \<Longrightarrow> insert_failed i s = Some s' \<Longrightarrow> kept_going s'"
  unfolding kept_going_def insert_failed_def emit_def
  by (auto simp: trace_simps split: if_splits)

lemma kept_going_db_done:
  assumes "kept_going s" "one_drain s" "resume i db_done s = Some s'"
  shows "kept_going s'"
proof -
  from resume_one [OF assms(3,2)] obtain d pc s1 where
    r: "drains s = [d]" "db_done d s = Some (pc, s1)"
      "s' = s1\<lparr>drains := (case pc of None \<Rightarrow> remove_nth 0 (drains s1) | Some p \<Rightarrow> (drains s1)[0 := p])\<rparr>"
    by blast
  from assms(2) r(1) have p: "isProcessing s" by (simp add: one_drain_def)
  show ?thesis
    using assms(1) r p
    unfolding kept_going_def db_done_def catch_block_def start_delay_def emit_def
      loop_head_def Let_def
    by (cases d)
       (auto simp: trace_simps remove_nth_def
         split: if_splits sum.splits option.splits completion.splits list.splits)
qed

lemma kept_going_db_failed:
  assumes "kept_going s" "one_drain s" "resume i (db_failed msg) s = Some s'"
  shows "kept_going s'"
proof -
  from resume_one [OF assms(3,2)] obtain d pc s1 where
    r: "drains s = [d]" "db_failed msg d s = Some (pc, s1)"
      "s' = s1\<lparr>drains := (case pc of None \<Rightarrow> remove_nth 0 (drains s1) | Some p \<Rightarrow> (drains s1)[0 := p])\<rparr>"
    by blast
  from assms(2) r(1) have p: "isProcessing s" by (simp add: one_drain_def)
  show ?thesis
    using assms(1) r p
    unfolding kept_going_def db_failed_def catch_block_def start_delay_def emit_def
      loop_head_def Let_def
    by (cases d)
       (auto simp: trace_simps remove_nth_def
         split: if_splits sum.splits option.splits completion.splits list.splits)
qed

lemma kept_going_post_done:
  assumes "kept_going s" "one_drain s" "resume i (post_done out) s = Some s'"
  shows "kept_going s'"
proof -
  from resume_one [OF assms(3,2)] obtain d pc s1 where
    r: "drains s = [d]" "post_done out d s = Some (pc, s1)"
      "s' = s1\<lparr>drains := (case pc of None \<Rightarrow> remove_nth 0 (drains s1) | Some p \<Rightarrow> (drains s1)[0 := p])\<rparr>"
    by blast
  from assms(2) r(1) have p: "isProcessing s" by (simp add: one_drain_def)
  show ?thesis
    using assms(1) r p
    unfolding kept_going_def post_done_def catch_block_def start_delay_def emit_def
      loop_head_def Let_def
    by (cases d)
       (auto simp: trace_simps remove_nth_def
         split: if_splits sum.splits option.splits completion.splits list.splits)
qed

lemma kept_going_continuation_done:
  assumes "kept_going s" "one_drain s" "resume i continuation_done s = Some s'"
  shows "kept_going s'"
proof -
  from resume_one [OF assms(3,2)] obtain d pc s1 where
    r: "drains s = [d]" "continuation_done d s = Some (pc, s1)"
      "s' = s1\<lparr>drains := (case pc of None \<Rightarrow> remove_nth 0 (drains s1) | Some p \<Rightarrow> (drains s1)[0 := p])\<rparr>"
    by blast
  from assms(2) r(1) have p: "isProcessing s" by (simp add: one_drain_def)
  show ?thesis
    using assms(1) r p
    unfolding kept_going_def continuation_done_def catch_block_def start_delay_def emit_def
      loop_head_def Let_def
    by (cases d)
       (auto simp: trace_simps remove_nth_def
         split: if_splits sum.splits option.splits completion.splits list.splits)
qed

lemma kept_going_timer_fired:
  assumes "kept_going s" "one_drain s" "resume i timer_fired s = Some s'"
  shows "kept_going s'"
proof -
  from resume_one [OF assms(3,2)] obtain d pc s1 where
    r: "drains s = [d]" "timer_fired d s = Some (pc, s1)"
      "s' = s1\<lparr>drains := (case pc of None \<Rightarrow> remove_nth 0 (drains s1) | Some p \<Rightarrow> (drains s1)[0 := p])\<rparr>"
    by blast
  from assms(2) r(1) have p: "isProcessing s" by (simp add: one_drain_def)
  show ?thesis
    using assms(1) r p
    unfolding kept_going_def timer_fired_def catch_block_def start_delay_def emit_def
      loop_head_def Let_def
    by (cases d)
       (auto simp: trace_simps remove_nth_def
         split: if_splits sum.splits option.splits completion.splits list.splits)
qed

lemma kept_going_step:
  "kept_going s \<Longrightarrow> one_drain s \<Longrightarrow> step l s = Some s' \<Longrightarrow> kept_going s'"
  by (cases l)
     (auto intro: kept_going_add kept_going_insert_done kept_going_insert_failed
       kept_going_db_done kept_going_db_failed kept_going_post_done
       kept_going_continuation_done kept_going_timer_fired)

section \<open>The invariant holds along every run\<close>

lemma inv_initial: "inv (PaymentQueue rows w)"
  by (simp add: inv_def one_drain_initial in_phase_initial in_order_initial kept_going_initial)

lemma inv_step: "inv s \<Longrightarrow> step l s = Some s' \<Longrightarrow> inv s'"
  unfolding inv_def
  by (blast intro: one_drain_step in_phase_step in_order_step kept_going_step)

lemma inv_run: "inv s \<Longrightarrow> run ls s = Some s' \<Longrightarrow> inv s'"
  by (induction ls arbitrary: s) (auto split: option.splits dest: inv_step)

lemma run_append:
  "run (ls @ ms) s = (case run ls s of None \<Rightarrow> None | Some s1 \<Rightarrow> run ms s1)"
  by (induction ls arbitrary: s) (auto split: option.splits)

lemma inv_reachable: "run ls (PaymentQueue rows w) = Some s \<Longrightarrow> inv s"
  by (rule inv_run [OF inv_initial])

section \<open>What is left to do falls with every settled promise\<close>

lemma work_resume:
  assumes "resume i k s = Some s'"
    and "\<And>d pc s1. k d s = Some (pc, s1) \<Longrightarrow>
           adds s1 = adds s \<and> drains s1 = drains s
           \<and> 8 * length (queue s1) + (case pc of None \<Rightarrow> 0 | Some p \<Rightarrow> rank_of p)
               < 8 * length (queue s) + rank_of d"
  shows "work s' < work s"
proof -
  from assms(1) obtain pc s1 where r: "i < length (drains s)" "k (drains s ! i) s = Some (pc, s1)"
    "s' = (case pc of None \<Rightarrow> s1\<lparr>drains := remove_nth i (drains s1)\<rparr>
           | Some p \<Rightarrow> s1\<lparr>drains := (drains s1)[i := p]\<rparr>)"
    by (auto simp: resume_def split: if_splits option.splits)
  note f = assms(2) [OF r(2)]
  have split: "sum_list (map rank_of (drains s))
      = sum_list (map rank_of (take i (drains s))) + rank_of (drains s ! i)
        + sum_list (map rank_of (drop (Suc i) (drains s)))"
    using r(1) by (metis (no_types, lifting) Cons_nth_drop_Suc append_take_drop_id
        list.simps(9) map_append sum_list.Cons sum_list.append add.assoc)
  show ?thesis
  proof (cases pc)
    case None
    with r(3) f show ?thesis
      by (simp add: work_def remove_nth_def split)
  next
    case (Some p)
    have "sum_list (map rank_of ((drains s)[i := p]))
      = sum_list (map rank_of (take i (drains s))) + rank_of p
        + sum_list (map rank_of (drop (Suc i) (drains s)))"
      using r(1) by (simp add: upd_conv_take_nth_drop)
    with Some r(3) f show ?thesis
      by (simp add: work_def split)
  qed
qed

lemma work_step:
  assumes "step l s = Some s'" "settles l"
  shows "work s' < work s"
proof (cases l)
  case (Add item uuid now)
  with assms(2) show ?thesis by simp
next
  case (InsertDone i)
  with assms(1) show ?thesis
    by (auto simp: insert_done_def process_def loop_head_def work_def remove_nth_def Let_def
        rank_of_def split: if_splits list.splits)
next
  case (InsertFailed i)
  with assms(1) show ?thesis
    by (auto simp: insert_failed_def emit_def work_def remove_nth_def split: if_splits)
next
  case (DbDone i)
  with assms(1) show ?thesis
    by (auto intro!: work_resume [of i db_done s s']
        simp: db_done_def catch_block_def start_delay_def emit_def Let_def rank_of_def
        split: suspended.splits sum.splits option.splits)
next
  case (DbFailed i msg)
  with assms(1) show ?thesis
    by (auto intro!: work_resume [of i "db_failed msg" s s']
        simp: db_failed_def catch_block_def emit_def rank_of_def
        split: suspended.splits)
next
  case (PostDone i out)
  with assms(1) show ?thesis
    by (auto intro!: work_resume [of i "post_done out" s s']
        simp: post_done_def catch_block_def emit_def rank_of_def
        split: suspended.splits sum.splits)
next
  case (ContinuationDone i)
  with assms(1) show ?thesis
    by (auto intro!: work_resume [of i continuation_done s s']
        simp: continuation_done_def catch_block_def start_delay_def emit_def rank_of_def
        split: suspended.splits completion.splits)
next
  case (TimerFired i)
  with assms(1) show ?thesis
    by (auto intro!: work_resume [of i timer_fired s s']
        simp: timer_fired_def loop_head_def rank_of_def
        split: suspended.splits list.splits)
qed

lemma work_run:
  "run ls s = Some s' \<Longrightarrow> list_all settles ls \<Longrightarrow> length ls + work s' \<le> work s"
proof (induction ls arbitrary: s)
  case Nil
  then show ?case by simp
next
  case (Cons l ls)
  from Cons.prems(1) obtain s1 where s1: "step l s = Some s1" "run ls s1 = Some s'"
    by (auto split: option.splits)
  from Cons.prems(2) have l: "settles l" "list_all settles ls" by simp_all
  from work_step [OF s1(1) l(1)] Cons.IH [OF s1(2) l(2)] show ?case by simp
qed

text \<open>Unless no call is suspended, some promise can settle, with its \<^verbatim>\<open>db.run\<close> resolved.\<close>

lemma can_settle:
  assumes "adds s \<noteq> [] \<or> drains s \<noteq> []"
  shows "\<exists>l. settles l \<and> resolves l \<and> step l s \<noteq> None"
proof (cases "drains s")
  case Nil
  with assms have "step (InsertDone 0) s \<noteq> None"
    by (auto simp: insert_done_def Let_def)
  then show ?thesis by (intro exI [of _ "InsertDone 0"]) simp
next
  case (Cons d ds)
  then have r: "drains s ! 0 = d" "0 < length (drains s)" by simp_all
  show ?thesis
  proof (cases d)
    case (AwaitMarkProcessing it)
    with r have "step (DbDone 0) s \<noteq> None"
      by (auto simp: resume_def db_done_def catch_block_def Let_def
          split: sum.splits option.splits)
    then show ?thesis by (intro exI [of _ "DbDone 0"]) simp
  next
    case (AwaitPost it)
    with r have "step (PostDone 0 (Resolved None)) s \<noteq> None"
      by (auto simp: resume_def post_done_def catch_block_def
          split: sum.splits option.splits)
    then show ?thesis by (intro exI [of _ "PostDone 0 (Resolved None)"]) simp
  next
    case (AwaitMarkCompleted it res)
    with r have "step (DbDone 0) s \<noteq> None"
      by (auto simp: resume_def db_done_def start_delay_def Let_def
          split: sum.splits option.splits)
    then show ?thesis by (intro exI [of _ "DbDone 0"]) simp
  next
    case (AwaitOnSuccess it k)
    with r have "step (ContinuationDone 0) s \<noteq> None"
      by (auto simp: resume_def continuation_done_def start_delay_def catch_block_def
          split: completion.splits option.splits)
    then show ?thesis by (intro exI [of _ "ContinuationDone 0"]) simp
  next
    case (AwaitMarkFailed it e)
    with r have "step (DbDone 0) s \<noteq> None"
      by (auto simp: resume_def db_done_def start_delay_def Let_def
          split: sum.splits option.splits)
    then show ?thesis by (intro exI [of _ "DbDone 0"]) simp
  next
    case (AwaitOnError it k)
    with r have "step (ContinuationDone 0) s \<noteq> None"
      by (auto simp: resume_def continuation_done_def start_delay_def
          split: completion.splits option.splits)
    then show ?thesis by (intro exI [of _ "ContinuationDone 0"]) simp
  next
    case AwaitDelay
    with r have "step (TimerFired 0) s \<noteq> None"
      by (auto simp: resume_def timer_fired_def loop_head_def
          split: list.splits option.splits)
    then show ?thesis by (intro exI [of _ "TimerFired 0"]) simp
  qed
qed

section \<open>What the serial protocol says about two settlement calls\<close>

text \<open>The jobs of the acceptor are submitted jobs.\<close>

lemma protocol_jobs:
  assumes "protocol (p, ph) e = Some (p', ph')"
  shows "set p' \<union> set (job_in ph') \<subseteq> set p \<union> set (job_in ph) \<union> set (jobs [e])"
  using assms
  by (cases e; cases ph) (auto simp: jobs_simps split: if_splits list.splits)

lemma follow_jobs:
  assumes "follow (p, ph) es = Some (p', ph')"
  shows "set p' \<union> set (job_in ph') \<subseteq> set p \<union> set (job_in ph) \<union> set (jobs es)"
  using assms
proof (induction es arbitrary: p ph)
  case Nil
  then show ?case by simp
next
  case (Cons e es)
  from Cons.prems obtain p1 ph1 where
    s: "protocol (p, ph) e = Some (p1, ph1)" "follow (p1, ph1) es = Some (p', ph')"
    by (auto split: option.splits)
  have "jobs (e # es) = jobs [e] @ jobs es" by (simp add: jobs_simps)
  then have j: "set (jobs (e # es)) = set (jobs [e]) \<union> set (jobs es)" by simp
  from protocol_jobs [OF s(1)] Cons.IH [OF s(2)] show ?case
    unfolding j by blast
qed

text \<open>Once an exception has left the processor, nothing is posted.\<close>

lemma dead_no_post: "follow (p, Dead) (es @ Posted v r # c) = None"
proof (induction es arbitrary: p)
  case Nil
  show ?case by simp
next
  case (Cons e es)
  then show ?case by (cases e) (auto split: option.splits)
qed

lemma escaping_no_post: "follow (p, Escaping j) (es @ Posted v r # c) = None"
proof (induction es arbitrary: p)
  case Nil
  show ?case by simp
next
  case (Cons e es)
  then show ?case by (cases e) (auto simp: dead_no_post split: option.splits if_splits)
qed

text \<open>
  A step of the acceptor with a job in hand after its call: the delay starts with nothing
  left due, or the job stays in hand, or the processor is left.
\<close>

lemma calls_settle_Nil: "calls_settle u []"
  by (simp add: calls_settle_def)

lemma calls_settle_Cons:
  "calls_settle u (e # es) =
     ((\<forall>x. e = ContinuationCalled u x \<longrightarrow> (\<exists>ok. ContinuationSettled u x ok \<in> set es))
      \<and> calls_settle u es)"
  unfolding calls_settle_def
proof (intro iffI conjI allI impI)
  fix x
  assume a: "\<forall>es1 x es2. e # es = es1 @ ContinuationCalled u x # es2 \<longrightarrow>
      (\<exists>ok. ContinuationSettled u x ok \<in> set es2)"
    and "e = ContinuationCalled u x"
  then have "e # es = [] @ ContinuationCalled u x # es" by simp
  with a show "\<exists>ok. ContinuationSettled u x ok \<in> set es" by blast
next
  fix es1 x es2
  assume a: "\<forall>es1 x es2. e # es = es1 @ ContinuationCalled u x # es2 \<longrightarrow>
      (\<exists>ok. ContinuationSettled u x ok \<in> set es2)"
    and "es = es1 @ ContinuationCalled u x # es2"
  then have "e # es = (e # es1) @ ContinuationCalled u x # es2" by simp
  with a show "\<exists>ok. ContinuationSettled u x ok \<in> set es2" by blast
next
  fix es1 x es2
  assume a: "(\<forall>x. e = ContinuationCalled u x \<longrightarrow> (\<exists>ok. ContinuationSettled u x ok \<in> set es))
      \<and> (\<forall>es1 x es2. es = es1 @ ContinuationCalled u x # es2 \<longrightarrow>
             (\<exists>ok. ContinuationSettled u x ok \<in> set es2))"
    and b: "e # es = es1 @ ContinuationCalled u x # es2"
  show "\<exists>ok. ContinuationSettled u x ok \<in> set es2"
  proof (cases es1)
    case Nil
    with b have "e = ContinuationCalled u x" "es = es2" by simp_all
    with a show ?thesis by blast
  next
    case (Cons y ys)
    with b have "es = ys @ ContinuationCalled u x # es2" by simp
    with a show ?thesis by blast
  qed
qed

lemma protocol_in_hand:
  assumes "protocol (p, ph) e = Some (p', ph')" "job_in ph = [j]" "ph \<noteq> Marked j"
  shows "(ph' = Idle \<and> e = DelayStarted (job_id j) \<and> due_to ph j [])
    \<or> (job_in ph' = [j] \<and> ph' \<noteq> Marked j \<and> (\<forall>es. due_to ph' j es \<longrightarrow> due_to ph j (e # es)))
    \<or> ph' = Dead \<or> ph' = Escaping j"
  using assms
  by (cases e; cases ph)
     (auto simp: due_to_def calls_settle_Nil calls_settle_Cons split: if_splits)

lemma follow_in_hand:
  assumes "follow (p, ph) (b @ Posted v r # c) = Some st" "job_in ph = [j]" "ph \<noteq> Marked j"
  shows "\<exists>b1 b2. b = b1 @ DelayStarted (job_id j) # b2 \<and> due_to ph j b1"
  using assms
proof (induction b arbitrary: p ph)
  case Nil
  then show ?case by (cases ph) (auto split: if_splits)
next
  case (Cons e b)
  from Cons.prems(1) obtain p1 ph1 where
    s: "protocol (p, ph) e = Some (p1, ph1)" "follow (p1, ph1) (b @ Posted v r # c) = Some st"
    by (auto split: option.splits)
  from protocol_in_hand [OF s(1) Cons.prems(2,3)]
  consider "ph1 = Idle" "e = DelayStarted (job_id j)" "due_to ph j []"
    | "job_in ph1 = [j]" "ph1 \<noteq> Marked j" "\<forall>es. due_to ph1 j es \<longrightarrow> due_to ph j (e # es)"
    | "ph1 = Dead" | "ph1 = Escaping j"
    by blast
  then show ?case
  proof cases
    case 1
    then have "e # b = [] @ DelayStarted (job_id j) # b \<and> due_to ph j []" by simp
    then show ?thesis by blast
  next
    case 2
    from Cons.IH [OF s(2) 2(1,2)] obtain b1 b2 where
      b: "b = b1 @ DelayStarted (job_id j) # b2" "due_to ph1 j b1"
      by blast
    with 2(3) have "e # b = (e # b1) @ DelayStarted (job_id j) # b2 \<and> due_to ph j (e # b1)"
      by simp
    then show ?thesis by blast
  next
    case 3
    with s(2) show ?thesis by (simp add: dead_no_post)
  next
    case 4
    with s(2) show ?thesis by (simp add: escaping_no_post)
  qed
qed

lemma protocol_Posted:
  "protocol (p, ph) (Posted u r) = Some st \<Longrightarrow>
     \<exists>j. ph = Marked j \<and> job_id j = u \<and> known_kind (job_type j) \<and> st = (p, Called j)"
  by (cases ph) (auto split: if_splits)

lemma serial_between_posts:
  assumes "serial (a @ Posted u r # b @ Posted v r' # c)"
  shows "\<exists>j b1 b2. j \<in> set (jobs a) \<and> job_id j = u \<and> known_kind (job_type j)
      \<and> b = b1 @ DelayStarted u # b2 \<and> due_to (Called j) j b1"
proof -
  from assms obtain p0 ph0 st1 st where
    f: "follow ([], Idle) a = Some (p0, ph0)" "protocol (p0, ph0) (Posted u r) = Some st1"
      "follow st1 (b @ Posted v r' # c) = Some st"
    by (auto simp: serial_def follow_append split: option.splits)
  from protocol_Posted [OF f(2)] obtain j where
    j: "ph0 = Marked j" "job_id j = u" "known_kind (job_type j)" "st1 = (p0, Called j)"
    by blast
  from follow_jobs [OF f(1)] j(1) have m: "j \<in> set (jobs a)" by simp
  from follow_in_hand [OF f(3) [unfolded j(4)], of j] obtain b1 b2 where
    "b = b1 @ DelayStarted (job_id j) # b2" "due_to (Called j) j b1"
    by auto
  with m j(2,3) show ?thesis by blast
qed

section \<open>Keys that select a row, and keys that select none\<close>

text \<open>
  Texts that read as the number 1 select the row with key 1; a text that reads as another
  number or as no number does not.
\<close>

lemma key_matches_examples:
  "key_matches 1 ''1''" "key_matches 1 ''1.0''" "key_matches 1 ''+1''" "key_matches 1 '' 1''"
  "key_matches 1 ''1e0''" "key_matches 1 ''10e-1''"
  "\<not> key_matches 1 ''1.5''" "\<not> key_matches 1 ''1e''" "\<not> key_matches 1 ''0x1''"
  "\<not> key_matches 1 ''''" "\<not> key_matches 1 ''1-''"
  by (simp_all add: key_matches_def sqlite_eval literal_value_def negative_def nat_of_digits_def
      digit_val_def fl_eval)

text \<open>A numeric literal has two hyphens at most: its sign and the sign of its exponent.\<close>

lemma hyphens_dropWhile:
  assumes "\<And>c. P c \<Longrightarrow> c \<noteq> CHR ''-''"
  shows "filter (\<lambda>c. c = CHR ''-'') (dropWhile P s) = filter (\<lambda>c. c = CHR ''-'') s"
proof -
  have "filter (\<lambda>c. c = CHR ''-'') (takeWhile P s) = []"
    using assms by (auto simp: filter_empty_conv dest: set_takeWhileD)
  moreover have "s = takeWhile P s @ dropWhile P s" by simp
  ultimately show ?thesis by (metis append_Nil filter_append)
qed

lemma hyphens_space:
  "filter (\<lambda>c. c = CHR ''-'') (dropWhile is_space s) = filter (\<lambda>c. c = CHR ''-'') s"
  by (rule hyphens_dropWhile) (auto simp: is_space_def)

lemma hyphens_digit:
  "filter (\<lambda>c. c = CHR ''-'') (dropWhile is_digit s) = filter (\<lambda>c. c = CHR ''-'') s"
  by (rule hyphens_dropWhile) (auto simp: is_digit_def)

lemma hyphens_sign:
  "length (filter (\<lambda>c. c = CHR ''-'') s) \<le> Suc (length (filter (\<lambda>c. c = CHR ''-'') (after_sign s)))"
  by (cases s) (auto simp: after_sign_def)

lemma hyphens_point:
  "has_point s \<Longrightarrow> filter (\<lambda>c. c = CHR ''-'') (tl s) = filter (\<lambda>c. c = CHR ''-'') s"
  by (cases s) (auto simp: has_point_def)

lemma hyphens_exponent:
  "has_exponent s \<Longrightarrow> filter (\<lambda>c. c = CHR ''-'') (tl s) = filter (\<lambda>c. c = CHR ''-'') s"
  by (cases s) (auto simp: has_exponent_def)

lemma numeric_literal_hyphens:
  assumes "numeric_literal s"
  shows "length (filter (\<lambda>c. c = CHR ''-'') s) \<le> 2"
proof -
  let ?h = "\<lambda>t. length (filter (\<lambda>c. c = CHR ''-'') t)"
  from assms have t: "trailing s = []" by (simp add: numeric_literal_def)
  have a: "?h s \<le> Suc (?h (from_point s))"
    using hyphens_sign [of "dropWhile is_space s"]
    by (simp add: from_point_def from_significand_def hyphens_space hyphens_digit)
  have b: "?h (from_point s) = ?h (from_exponent s)"
    by (simp add: from_exponent_def hyphens_digit hyphens_point)
  have c: "?h (from_exponent s) \<le> Suc (?h (trailing s))"
  proof (cases "has_exponent (from_exponent s)")
    case True
    from hyphens_exponent [OF True] hyphens_sign [of "tl (from_exponent s)"] True
    show ?thesis
      by (simp add: trailing_def from_exponent_digits_def hyphens_space hyphens_digit)
  next
    case False
    then show ?thesis by (simp add: trailing_def hyphens_space)
  qed
  from a b c t show ?thesis by simp
qed

text \<open>An identifier of the shape of a UUID has four, so it is no number and selects no row.\<close>

lemma uuid_like_hyphens:
  assumes "uuid_like u"
  shows "length (filter (\<lambda>c. c = CHR ''-'') u) = 4"
proof -
  have "(\<lambda>c. c = CHR ''-'') \<circ> shape = (\<lambda>c. c = CHR ''-'')"
    by (auto simp: shape_def fun_eq_iff)
  then have "length (filter (\<lambda>c. c = CHR ''-'') u) = length (filter (\<lambda>c. c = CHR ''-'') (map shape u))"
    by (simp add: filter_map)
  also have "\<dots> = 4" using assms by (simp add: uuid_like_def)
  finally show ?thesis .
qed

lemma uuid_like_not_numeric: "uuid_like u \<Longrightarrow> sqlite_number u = None"
  using numeric_literal_hyphens [of u] uuid_like_hyphens [of u]
  by (auto simp: sqlite_number_def)

lemma uuid_like_samples: "uuid_like uuid1" "uuid_like uuid2"
  by (simp_all add: uuid_like_def uuid1_def uuid2_def shape_def)

lemma update_status_miss:
  "uuid_like key \<Longrightarrow> update_status key st stamp rows = rows"
  by (simp add: update_status_def key_matches_def uuid_like_not_numeric map_idI)

section \<open>After an exception has left the loop\<close>

text \<open>
  With \<open>isProcessing\<close> set and no call of \<^verbatim>\<open>process\<close> left, nothing is ever started or
  posted again, whatever is submitted.
\<close>

lemma stuck_step:
  assumes "isProcessing s" "drains s = []" "step l s = Some s'"
  shows "isProcessing s' \<and> drains s' = [] \<and> posted (trace s') = posted (trace s)
    \<and> started (trace s') = started (trace s)"
  using assms
  by (cases l)
     (auto simp: add_def emit_def Let_def insert_done_def insert_failed_def resume_def
       trace_simps split: if_splits)

lemma stuck_forever:
  assumes "isProcessing s" "drains s = []" "run ls s = Some s'"
  shows "isProcessing s' \<and> drains s' = [] \<and> posted (trace s') = posted (trace s)
    \<and> started (trace s') = started (trace s)"
  using assms
proof (induction ls arbitrary: s)
  case Nil
  then show ?case by simp
next
  case (Cons l ls)
  from Cons.prems(3) obtain s1 where s1: "step l s = Some s1" "run ls s1 = Some s'"
    by (auto split: option.splits)
  from stuck_step [OF Cons.prems(1,2) s1(1)] Cons.IH [OF _ _ s1(2)]
  show ?case by simp
qed

section \<open>The stored status of a row\<close>

text \<open>
  An identifier of the shape of a UUID selects no row, so no row submitted under such an
  identifier ever leaves \<open>pending\<close>: along a run the table only grows, by \<open>pending\<close>
  rows.
\<close>

lemma only_pending_added_refl: "only_pending_added rows rows"
  by (simp add: only_pending_added_def)

lemma only_pending_added_trans:
  "only_pending_added a b \<Longrightarrow> only_pending_added b c \<Longrightarrow> only_pending_added a c"
  by (fastforce simp: only_pending_added_def)

lemma only_pending_added_insert: "only_pending_added rows (insert_row item rows)"
  by (simp add: only_pending_added_def insert_row_def)

lemma set_remove_nth: "x \<in> set (remove_nth i xs) \<Longrightarrow> x \<in> set xs"
  by (auto simp: remove_nth_def dest: in_set_takeD in_set_dropD)

lemma set_list_update: "x \<in> set (xs[i := y]) \<Longrightarrow> x = y \<or> x \<in> set xs"
  using set_update_subset_insert [of xs i y] by auto

lemma ids_resume:
  assumes "ids_uuid_like s" "i < length (drains s)"
    "k (drains s ! i) s = Some (pc, s1)"
    "queue s1 = queue s \<or> (\<exists>it. queue s = it # queue s1)" "adds s1 = adds s"
    "drains s1 = drains s"
    "\<And>p it. pc = Some p \<Longrightarrow> it \<in> set (suspended_item p) \<Longrightarrow>
       it \<in> set (suspended_item (drains s ! i)) \<or> it \<in> set (queue s)"
  shows "ids_uuid_like
    (case pc of None \<Rightarrow> s1\<lparr>drains := remove_nth i (drains s1)\<rparr>
     | Some p \<Rightarrow> s1\<lparr>drains := (drains s1)[i := p]\<rparr>)"
proof -
  have q: "\<forall>it \<in> set (queue s1). uuid_like (id' it)"
    using assms(1,4) by (auto simp: ids_uuid_like_def)
  have a: "\<forall>it \<in> set (adds s1). uuid_like (id' it)"
    using assms(1,5) by (auto simp: ids_uuid_like_def)
  have d: "\<forall>d \<in> set (drains s). \<forall>it \<in> set (suspended_item d). uuid_like (id' it)"
    using assms(1) by (auto simp: ids_uuid_like_def)
  have di: "\<forall>it \<in> set (suspended_item (drains s ! i)). uuid_like (id' it)"
    using d assms(2) nth_mem by blast
  show ?thesis
  proof (cases pc)
    case None
    with q a d assms(6) show ?thesis
      by (auto simp: ids_uuid_like_def dest: set_remove_nth)
  next
    case (Some p)
    have "\<forall>it \<in> set (suspended_item p). uuid_like (id' it)"
      using assms(7) [OF Some] di assms(1) by (auto simp: ids_uuid_like_def)
    with Some q a d assms(6) show ?thesis
      by (auto simp: ids_uuid_like_def dest!: set_list_update)
  qed
qed

lemma resume_cases:
  assumes "resume i k s = Some s'"
  obtains pc s1 where "i < length (drains s)" "k (drains s ! i) s = Some (pc, s1)"
    "s' = (case pc of None \<Rightarrow> s1\<lparr>drains := remove_nth i (drains s1)\<rparr>
           | Some p \<Rightarrow> s1\<lparr>drains := (drains s1)[i := p]\<rparr>)"
  using assms by (auto simp: resume_def split: if_splits option.splits)

lemma table_resume:
  "table (case pc of None \<Rightarrow> s1\<lparr>drains := remove_nth i (drains s1)\<rparr>
           | Some p \<Rightarrow> s1\<lparr>drains := (drains s1)[i := p]\<rparr>) = table s1"
  by (cases pc) simp_all

lemma db_done_frame:
  assumes "db_done d s = Some (pc, s1)" "\<forall>it \<in> set (suspended_item d). uuid_like (id' it)"
  shows "queue s1 = queue s" "adds s1 = adds s" "drains s1 = drains s" "table s1 = table s"
    "\<And>p it. pc = Some p \<Longrightarrow> it \<in> set (suspended_item p) \<Longrightarrow> it \<in> set (suspended_item d)"
  using assms
  by (auto simp: db_done_def catch_block_def start_delay_def emit_def Let_def
      suspended_item_def update_status_miss
      split: suspended.splits sum.splits option.splits)

lemma db_failed_frame:
  assumes "db_failed msg d s = Some (pc, s1)"
  shows "queue s1 = queue s" "adds s1 = adds s" "drains s1 = drains s" "table s1 = table s"
    "\<And>p it. pc = Some p \<Longrightarrow> it \<in> set (suspended_item p) \<Longrightarrow> it \<in> set (suspended_item d)"
  using assms
  by (auto simp: db_failed_def catch_block_def emit_def suspended_item_def
      split: suspended.splits)

lemma post_done_frame:
  assumes "post_done out d s = Some (pc, s1)"
  shows "queue s1 = queue s" "adds s1 = adds s" "drains s1 = drains s" "table s1 = table s"
    "\<And>p it. pc = Some p \<Longrightarrow> it \<in> set (suspended_item p) \<Longrightarrow> it \<in> set (suspended_item d)"
  using assms
  by (auto simp: post_done_def catch_block_def emit_def suspended_item_def
      split: suspended.splits sum.splits)

lemma continuation_done_frame:
  assumes "continuation_done d s = Some (pc, s1)"
  shows "queue s1 = queue s" "adds s1 = adds s" "drains s1 = drains s" "table s1 = table s"
    "\<And>p it. pc = Some p \<Longrightarrow> it \<in> set (suspended_item p) \<Longrightarrow> it \<in> set (suspended_item d)"
  using assms
  by (auto simp: continuation_done_def catch_block_def start_delay_def emit_def
      suspended_item_def split: suspended.splits completion.splits)

lemma timer_fired_frame:
  assumes "timer_fired d s = Some (pc, s1)"
  shows "queue s1 = queue s \<or> (\<exists>it. queue s = it # queue s1)" "adds s1 = adds s"
    "drains s1 = drains s" "table s1 = table s"
    "\<And>p it. pc = Some p \<Longrightarrow> it \<in> set (suspended_item p) \<Longrightarrow> it \<in> set (queue s)"
  using assms
  by (auto simp: timer_fired_def loop_head_def suspended_item_def
      split: suspended.splits list.splits)

lemma table_step:
  assumes "ids_uuid_like s" "label_uuid_like l" "step l s = Some s'"
  shows "ids_uuid_like s' \<and> only_pending_added (table s) (table s')"
proof (cases l)
  case (Add item uuid now)
  with assms show ?thesis
    by (auto simp: ids_uuid_like_def add_def emit_def Let_def only_pending_added_refl)
next
  case (InsertDone i)
  with assms have i: "i < length (adds s)" by (auto simp: insert_done_def split: if_splits)
  define s1 where "s1 = s\<lparr>adds := remove_nth i (adds s), table := insert_row (adds s ! i) (table s)\<rparr>"
  have s1: "ids_uuid_like s1" "table s1 = insert_row (adds s ! i) (table s)"
    using assms(1) by (auto simp: s1_def ids_uuid_like_def dest: set_remove_nth)
  have p: "ids_uuid_like (process s1) \<and> table (process s1) = table s1"
    using s1(1)
    by (auto simp: process_def loop_head_def ids_uuid_like_def suspended_item_def
        split: list.splits)
  from InsertDone assms(3) i have "s' = (if \<not> isProcessing s1 then process s1 else s1)"
    by (auto simp: insert_done_def s1_def Let_def)
  with p s1 show ?thesis
    by (auto simp: only_pending_added_insert)
next
  case (InsertFailed i)
  with assms show ?thesis
    using set_remove_nth [of _ i "adds s"]
    by (auto simp: insert_failed_def emit_def ids_uuid_like_def only_pending_added_refl
        split: if_splits)
next
  case (DbFailed i msg)
  with assms(3) obtain pc s1 where r: "i < length (drains s)"
    "db_failed msg (drains s ! i) s = Some (pc, s1)"
    "s' = (case pc of None \<Rightarrow> s1\<lparr>drains := remove_nth i (drains s1)\<rparr>
           | Some p \<Rightarrow> s1\<lparr>drains := (drains s1)[i := p]\<rparr>)"
    by (auto elim: resume_cases)
  note f = db_failed_frame [OF r(2)]
  have "ids_uuid_like s'"
    unfolding r(3) using f
    by (intro ids_resume [where k = "db_failed msg", OF assms(1) r(1) r(2)]) auto
  moreover have "table s' = table s" unfolding r(3) table_resume by (rule f(4))
  ultimately show ?thesis by (simp add: only_pending_added_refl)
next
  case (DbDone i)
  with assms(3) obtain pc s1 where r: "i < length (drains s)" "db_done (drains s ! i) s = Some (pc, s1)"
    "s' = (case pc of None \<Rightarrow> s1\<lparr>drains := remove_nth i (drains s1)\<rparr>
           | Some p \<Rightarrow> s1\<lparr>drains := (drains s1)[i := p]\<rparr>)"
    by (auto elim: resume_cases)
  have di: "\<forall>it \<in> set (suspended_item (drains s ! i)). uuid_like (id' it)"
    using assms(1) r(1) nth_mem unfolding ids_uuid_like_def by blast
  note f = db_done_frame [OF r(2) di]
  have "ids_uuid_like s'"
    unfolding r(3) using f by (intro ids_resume [where k = db_done, OF assms(1) r(1) r(2)]) auto
  moreover have "table s' = table s" unfolding r(3) table_resume by (rule f(4))
  ultimately show ?thesis by (simp add: only_pending_added_refl)
next
  case (PostDone i out)
  with assms(3) obtain pc s1 where r: "i < length (drains s)"
    "post_done out (drains s ! i) s = Some (pc, s1)"
    "s' = (case pc of None \<Rightarrow> s1\<lparr>drains := remove_nth i (drains s1)\<rparr>
           | Some p \<Rightarrow> s1\<lparr>drains := (drains s1)[i := p]\<rparr>)"
    by (auto elim: resume_cases)
  note f = post_done_frame [OF r(2)]
  have "ids_uuid_like s'"
    unfolding r(3) using f
    by (intro ids_resume [where k = "post_done out", OF assms(1) r(1) r(2)]) auto
  moreover have "table s' = table s" unfolding r(3) table_resume by (rule f(4))
  ultimately show ?thesis by (simp add: only_pending_added_refl)
next
  case (ContinuationDone i)
  with assms(3) obtain pc s1 where r: "i < length (drains s)"
    "continuation_done (drains s ! i) s = Some (pc, s1)"
    "s' = (case pc of None \<Rightarrow> s1\<lparr>drains := remove_nth i (drains s1)\<rparr>
           | Some p \<Rightarrow> s1\<lparr>drains := (drains s1)[i := p]\<rparr>)"
    by (auto elim: resume_cases)
  note f = continuation_done_frame [OF r(2)]
  have "ids_uuid_like s'"
    unfolding r(3) using f
    by (intro ids_resume [where k = continuation_done, OF assms(1) r(1) r(2)]) auto
  moreover have "table s' = table s" unfolding r(3) table_resume by (rule f(4))
  ultimately show ?thesis by (simp add: only_pending_added_refl)
next
  case (TimerFired i)
  with assms(3) obtain pc s1 where r: "i < length (drains s)"
    "timer_fired (drains s ! i) s = Some (pc, s1)"
    "s' = (case pc of None \<Rightarrow> s1\<lparr>drains := remove_nth i (drains s1)\<rparr>
           | Some p \<Rightarrow> s1\<lparr>drains := (drains s1)[i := p]\<rparr>)"
    by (auto elim: resume_cases)
  note f = timer_fired_frame [OF r(2)]
  have "ids_uuid_like s'"
    unfolding r(3) using f
    by (intro ids_resume [where k = timer_fired, OF assms(1) r(1) r(2)]) auto
  moreover have "table s' = table s" unfolding r(3) table_resume by (rule f(4))
  ultimately show ?thesis by (simp add: only_pending_added_refl)
qed

lemma table_run:
  assumes "ids_uuid_like s" "list_all label_uuid_like ls" "run ls s = Some s'"
  shows "ids_uuid_like s' \<and> only_pending_added (table s) (table s')"
  using assms
proof (induction ls arbitrary: s)
  case Nil
  then show ?case by (simp add: only_pending_added_refl)
next
  case (Cons l ls)
  from Cons.prems(3) obtain s1 where s1: "step l s = Some s1" "run ls s1 = Some s'"
    by (auto split: option.splits)
  from Cons.prems(2) have l: "label_uuid_like l" "list_all label_uuid_like ls" by simp_all
  from table_step [OF Cons.prems(1) l(1) s1(1)]
  have a: "ids_uuid_like s1" "only_pending_added (table s) (table s1)" by simp_all
  from Cons.IH [OF a(1) l(2) s1(2)] a(2) show ?case
    by (auto intro: only_pending_added_trans)
qed

lemma stored_status_never_changes:
  assumes "list_all label_uuid_like ls" "run ls (PaymentQueue rows w) = Some s"
  shows "only_pending_added rows (table s)"
proof -
  have "ids_uuid_like (PaymentQueue rows w)" by (simp add: ids_uuid_like_def PaymentQueue_def)
  from table_run [OF this assms] show ?thesis by (simp add: PaymentQueue_def)
qed

section \<open>The encoding rounds\<close>

text \<open>
  C3, as the code has it: \<^verbatim>\<open>toFixed(8)\<close> rounds. For a finite input of magnitude below
  \<open>10^21\<close> the text denotes the input's sign times \<open>n / 10^8\<close>, with \<open>n\<close> the integer
  nearest to the magnitude times \<open>10^8\<close> (the larger one when two are equally near); and
  \<^verbatim>\<open>toApiFormat\<close> gives the same text. From \<open>10^21\<close> on \<^verbatim>\<open>toFixed\<close> answers in exponent
  notation.
\<close>

theorem formatCoinAmount_rounds_to_nearest:
  "\<bar>x\<bar> < 10 ^ 21 \<Longrightarrow>
     (\<exists>n::nat. decimal_value (formatCoinAmount (Fin x)) = Some (sgn x * of_nat n / 10 ^ 8)
        \<and> \<bar>x\<bar> * 10 ^ 8 - 1 / 2 < of_nat n \<and> of_nat n \<le> \<bar>x\<bar> * 10 ^ 8 + 1 / 2)
     \<and> toApiFormat (Fin x) = formatCoinAmount (Fin x)"
  using formatCoinAmount_value [of x] round_scaled_nearest [of "\<bar>x\<bar>" 8]
    toApiFormat_formatCoinAmount [of x]
  by (intro conjI exI [of _ "round_scaled 8 \<bar>x\<bar>"]) simp_all

text \<open>
  The double of the literal \<^verbatim>\<open>0.123456789\<close> is below \<open>10^21\<close>, and its encoding denotes
  \<open>0.12345679\<close>.
\<close>

theorem formatCoinAmount_rounds_to_nearest_witness:
  "fl (123456789 / 10 ^ 9) = Fin (8895999182988127 / 72057594037927936)
   \<and> decimal_value (formatCoinAmount (Fin (8895999182988127 / 72057594037927936)))
       = Some (12345679 / 10 ^ 8)
   \<and> toApiFormat (Fin (8895999182988127 / 72057594037927936)) = ''0.12345679''"
proof -
  define x :: rat where "x = 8895999182988127 / 72057594037927936"
  have b: "\<bar>x\<bar> < 10 ^ 21" by (simp add: x_def)
  have s: "sgn x = 1" by (simp add: x_def)
  from formatCoinAmount_rounds_to_nearest [OF b] obtain n :: nat where
    n: "decimal_value (formatCoinAmount (Fin x)) = Some (sgn x * of_nat n / 10 ^ 8)"
      "\<bar>x\<bar> * 10 ^ 8 - 1 / 2 < of_nat n" "of_nat n \<le> \<bar>x\<bar> * 10 ^ 8 + 1 / 2"
    and t: "toApiFormat (Fin x) = formatCoinAmount (Fin x)"
    by blast
  from n(2) have "(12345678 :: rat) < of_nat n" by (simp add: x_def)
  then have "12345678 < n" using of_nat_less_iff [of 12345678 n, where ?'a = rat] by simp
  moreover from n(3) have "(of_nat n :: rat) < 12345680" by (simp add: x_def)
  then have "n < 12345680" using of_nat_less_iff [of n 12345680, where ?'a = rat] by simp
  ultimately have "n = 12345679" by simp
  with n(1) s have v: "decimal_value (formatCoinAmount (Fin x)) = Some (12345679 / 10 ^ 8)"
    by simp
  have f: "formatCoinAmount (Fin x) = ''0.12345679''"
    unfolding x_def by (simp add: fmt_eval)
  show ?thesis
    using fl_literal_0_123456789 v t f unfolding x_def by simp
qed

section \<open>What a run writes to the queue table\<close>

text \<open>
  C4 on one accepted transfer: the processor writes \<open>processing\<close> and then \<open>completed\<close>
  for the job, but each UPDATE is keyed by the item's UUID while the table is keyed by
  its integer row id, so the row inserted at submission stays \<open>pending\<close> with no
  \<^verbatim>\<open>processed_at\<close>. Lemma \<open>stored_status_never_changes\<close> gives the same for every run
  whose identifiers have the shape of a UUID.
\<close>

theorem status_updates_miss_the_row:
  "map_option (\<lambda>s. (statuses_written (trace s) uuid1, map q_id (table s),
                      map q_status (table s), map q_processed_at (table s)))
     (run [Add (transfer_job ''card_to_id'' None None) uuid1 0, InsertDone 0, DbDone 0,
           PostDone 0 accepted, DbDone 0, TimerFired 0] (PaymentQueue [] ()))
   = Some ([processing, completed], [1], [pending], [False])"
  by (simp add: queue_eval transfer_job_def accepted_def formatCoinAmount_5
      statuses_written_def uuid1_not_numeric)

section \<open>A continuation that throws\<close>

text \<open>
  C5 on an accepted transfer whose success continuation throws: the call of
  \<^verbatim>\<open>onSuccess\<close> stands inside the \<^verbatim>\<open>try\<close>, so the \<^verbatim>\<open>catch\<close> block writes \<open>failed\<close> for
  a job already written \<open>completed\<close>.
\<close>

theorem completed_then_failed:
  "map_option (\<lambda>s. statuses_written (trace s) uuid1)
     (run [Add (transfer_job ''card_to_id'' (Some throwing) None) uuid1 0, InsertDone 0,
           DbDone 0, PostDone 0 accepted, DbDone 0, ContinuationDone 0, DbDone 0,
           TimerFired 0] (PaymentQueue [] ()))
   = Some [processing, completed, failed]"
  by (simp add: queue_eval transfer_job_def accepted_def formatCoinAmount_5
      statuses_written_def throwing_def)

text \<open>
  C8 on two queued jobs, the first rejected by the service and with a failure
  continuation that throws: the exception leaves \<^verbatim>\<open>process\<close> with \<open>isProcessing\<close> still
  set, no call of \<^verbatim>\<open>process\<close> is left, the second job stays in the queue and only the
  first was ever posted. By lemma \<open>stuck_forever\<close> no later event starts or posts a job
  from such a state.
\<close>

theorem throwing_onError_stops_the_queue:
  "map_option (\<lambda>s. (isProcessing s, length (drains s), map id' (queue s),
                      map fst (posted (trace s)), last (trace s)))
     (run [Add (transfer_job ''card_to_id'' None (Some throwing)) uuid1 0,
           Add (transfer_job ''card_to_id'' None None) uuid2 1, InsertDone 0, InsertDone 0,
           DbDone 0, PostDone 0 (Rejected ''timeout''), DbDone 0, ContinuationDone 0]
        (PaymentQueue [] ()))
   = Some (True, 0, [uuid2], [uuid1], Escaped uuid1 ''boom'')"
  by (simp add: queue_eval transfer_job_def formatCoinAmount_5 posted_def throwing_def)

section \<open>The withdraw scenario\<close>

text \<open>
  C6 on a user whose balance is \<^verbatim>\<open>0.03\<close>: the transfer posted for a withdraw of
  \<^verbatim>\<open>10.00\<close> carries the amount \<open>0.0000001\<close>, and once the service accepts it the stored
  balance is the double \<^verbatim>\<open>10.02\<close>, one cent short of \<^verbatim>\<open>0.03 + 10 = 10.03\<close>:
  \<^verbatim>\<open>Math.floor((0.03 + 10) * 100)\<close> is 1002.
\<close>

theorem withdraw_loses_a_cent:
  "(case withdraw10 (fl (3 / 100)) of
      Inl r \<Rightarrow> None
    | Inr item \<Rightarrow>
        map_option (\<lambda>s. (map snd (posted (trace s)), balance (world s)))
          (run [Add item uuid1 0, InsertDone 0, DbDone 0, PostDone 0 accepted, DbDone 0,
                ContinuationDone 0, TimerFired 0] (PaymentQueue [] (ledger (fl (3 / 100))))))
   = Some ([CardPay ''user-card'' (Some ''server-card'') ''0.0000001''], Some (fl (1002 / 100)))
   \<and> num_add (fl (3 / 100)) (Fin 10) = fl (1003 / 100)
   \<and> fl (1002 / 100) \<noteq> fl (1003 / 100)"
proof -
  have item: "withdraw10 (fl (3 / 100)) =
      Inr \<lparr>guildId = ''guild'', userId = ''user'', type = ''card_to_card'',
           payload = \<lparr>fromCard = ''user-card'', toId = None, toCard = Some ''server-card'',
                      amount = Fin (944473296573929 / 9444732965739290427392)\<rparr>,
           onSuccess = Some (withdraw_onSuccess ''guild'' ''user''
                         \<lparr>card_id = Some ''user-card'', dollars = Some (fl (3 / 100))\<rparr> (Fin 10)),
           onError = None, id' = [], createdAt = 0, status = pending\<rparr>"
    by (simp only: withdraw10_def money_withdraw_def coin_amount_of_10 Let_def)
       (simp add: ledger_def isNaN_def num_le_def)
  have z: "or_zero (Some (Fin (1080863910568919 / 36028797018963968))) =
      Fin (1080863910568919 / 36028797018963968)"
    by (simp add: or_zero_def)
  have nd: "truncateDollar (num_add (or_zero (Some (fl (3 / 100)))) (Fin 10)) = fl (1002 / 100)"
    by (simp only: fl_literal_0_03 z sum_0_03_10 truncateDollar_10_03 fl_literal_10_02)
  have cont: "withdraw_onSuccess ''guild'' ''user''
        \<lparr>card_id = Some ''user-card'', dollars = Some (fl (3 / 100))\<rparr> (Fin 10) r
        (ledger (fl (3 / 100))) = Returns (ledger (fl (1002 / 100)))" for r
    unfolding withdraw_onSuccess_def Let_def user_row.simps nd
    by (simp add: ledger_def update_dollars_def)
  have bal: "balance (ledger b) = Some b" for b
    by (simp add: balance_def ledger_def)
  have "num_add (fl (3 / 100)) (Fin 10) = fl (1003 / 100)"
    by (simp only: fl_literal_0_03 fl_literal_10_03 sum_0_03_10)
  moreover have "fl (1002 / 100) \<noteq> fl (1003 / 100)"
    by (simp only: fl_literal_10_02 fl_literal_10_03) simp
  ultimately show ?thesis
    by (simp add: item queue_eval accepted_def formatCoinAmount_1e7 posted_def cont bal)
qed

section \<open>One job at a time\<close>

text \<open>
  C1: in every state a run of the queue reaches, at most one call of \<^verbatim>\<open>process\<close> is inside
  the loop, it is there only while \<open>isProcessing\<close> is set, and at most one job has
  \<open>processing\<close> as the status the processor wrote last.
\<close>

theorem at_most_one_processing:
  "run ls (PaymentQueue rows w) = Some s \<Longrightarrow>
     length (drains s) \<le> 1 \<and> (drains s \<noteq> [] \<longrightarrow> isProcessing s)
     \<and> (status_of (trace s) u = processing \<and> status_of (trace s) v = processing \<longrightarrow> u = v)"
proof -
  assume "run ls (PaymentQueue rows w) = Some s"
  then have "inv s" by (rule inv_reachable)
  then have i: "one_drain s" by (simp add: inv_def)
  from i have one: "length (drains s) \<le> 1" by (simp add: one_drain_def)
  from i have flag: "drains s \<noteq> [] \<longrightarrow> isProcessing s" by (simp add: one_drain_def)
  from i have "\<forall>u v. status_of (trace s) u = processing \<and> status_of (trace s) v = processing
      \<longrightarrow> u = v"
    unfolding one_drain_def by (elim conjE)
  then have "status_of (trace s) u = processing \<and> status_of (trace s) v = processing \<longrightarrow> u = v"
    by blast
  with one flag show ?thesis by blast
qed

text \<open>
  Two jobs are submitted and the first is sent to the service: it alone is \<open>processing\<close>
  while the second waits.
\<close>

theorem at_most_one_processing_witness:
  "\<exists>s. run [Add (transfer_job ''card_to_id'' None None) uuid1 0,
             Add (transfer_job ''card_to_card'' None None) uuid2 1,
             InsertDone 0, InsertDone 0, DbDone 0] (PaymentQueue [] ()) = Some s
       \<and> length (drains s) \<le> 1 \<and> isProcessing s
       \<and> status_of (trace s) uuid1 = processing \<and> status_of (trace s) uuid2 \<noteq> processing"
proof -
  have "\<exists>s. run [Add (transfer_job ''card_to_id'' None None) uuid1 0,
             Add (transfer_job ''card_to_card'' None None) uuid2 1,
             InsertDone 0, InsertDone 0, DbDone 0] (PaymentQueue [] ()) = Some s
       \<and> drains s \<noteq> [] \<and> status_of (trace s) uuid1 = processing"
    by (simp add: queue_eval transfer_job_def formatCoinAmount_5 status_of_def
        statuses_written_def)
  then obtain s where s: "run [Add (transfer_job ''card_to_id'' None None) uuid1 0,
             Add (transfer_job ''card_to_card'' None None) uuid2 1,
             InsertDone 0, InsertDone 0, DbDone 0] (PaymentQueue [] ()) = Some s"
    "drains s \<noteq> []" "status_of (trace s) uuid1 = processing"
    by blast
  note t = at_most_one_processing [OF s(1), of uuid1 uuid2]
  from t have a: "length (drains s) \<le> 1" by (rule conjunct1)
  from t s(2) have b: "isProcessing s" by blast
  from t s(3) uuid1_neq_uuid2 have c: "status_of (trace s) uuid2 \<noteq> processing" by blast
  show ?thesis
    by (intro exI [of _ s] conjI) (fact s(1), fact a, fact b, fact s(3), fact c)
qed

section \<open>First in, first out\<close>

text \<open>
  C2, as the code has it. In every state \<open>s\<close> a run reaches:
  \<^item> the trace is one of the serial processor;
  \<^item> if no \<^verbatim>\<open>db.run\<close> was rejected, the transfers posted are, in submission order, one
    for each job of type \<^verbatim>\<open>card_to_id\<close> or \<^verbatim>\<open>card_to_card\<close> among the jobs taken so far,
    which are the first of the submitted ones, and none for a job of another type;
  \<^item> between the post of a job and the next post, the delay of that job has started,
    and before it the job was written \<open>completed\<close> or \<open>failed\<close>, its \<^verbatim>\<open>onSuccess\<close>, if it
    has one, was called once it was written \<open>completed\<close>, its \<^verbatim>\<open>onError\<close>, if it has one,
    was called once it was written \<open>failed\<close>, and every continuation called has settled;
  \<^item> if no \<^verbatim>\<open>db.run\<close> was rejected and no exception has left \<^verbatim>\<open>process\<close> (no \<^verbatim>\<open>onError\<close>
    threw), then once no call of \<^verbatim>\<open>add\<close> or \<^verbatim>\<open>process\<close> is suspended the queue is empty,
    \<open>isProcessing\<close> is false, and the transfers posted are one for each submitted job of
    type \<^verbatim>\<open>card_to_id\<close> or \<^verbatim>\<open>card_to_card\<close>, in submission order;
  \<^item> that state is reached: while a call is suspended some promise can settle, and
    without further submissions no more than \<open>work s\<close> promises settle.
\<close>

theorem fifo_processing:
  "run ls (PaymentQueue rows w) = Some s \<Longrightarrow>
     serial (trace s)
     \<and> (rejected (trace s) = [] \<longrightarrow>
          map fst (posted (trace s))
            = map job_id (filter (\<lambda>j. known_kind (job_type j)) (taken (trace s))))
     \<and> (\<forall>a u r b v r' c. trace s = a @ Posted u r # b @ Posted v r' # c \<longrightarrow>
          (\<exists>j b1 b2. j \<in> set (jobs (trace s)) \<and> job_id j = u
             \<and> b = b1 @ DelayStarted u # b2
             \<and> (StatusWritten u completed \<in> set b1 \<or> StatusWritten u failed \<in> set b1)
             \<and> (has_onSuccess j \<and> StatusWritten u completed \<in> set b1 \<longrightarrow>
                  ContinuationCalled u True \<in> set b1)
             \<and> (has_onError j \<and> StatusWritten u failed \<in> set b1 \<longrightarrow>
                  ContinuationCalled u False \<in> set b1)
             \<and> (\<forall>b3 x b4. b1 = b3 @ ContinuationCalled u x # b4 \<longrightarrow>
                  (\<exists>ok. ContinuationSettled u x ok \<in> set b4))))
     \<and> (rejected (trace s) = [] \<and> escaped (trace s) = [] \<and> adds s = [] \<and> drains s = [] \<longrightarrow>
          queue s = [] \<and> \<not> isProcessing s
          \<and> map fst (posted (trace s))
              = map fst (filter (\<lambda>k. known_kind (snd k)) (submitted (trace s))))
     \<and> (adds s \<noteq> [] \<or> drains s \<noteq> [] \<longrightarrow> (\<exists>l. settles l \<and> resolves l \<and> step l s \<noteq> None))
     \<and> (\<forall>ls' s'. list_all settles ls' \<and> run ls' s = Some s' \<longrightarrow> length ls' + work s' \<le> work s)"
proof -
  assume "run ls (PaymentQueue rows w) = Some s"
  then have i: "inv s" by (rule inv_reachable)
  from i have ph: "in_phase s" and ord: "in_order s" and kg: "kept_going s"
    by (simp_all add: inv_def)
  have ser: "serial (trace s)"
    using ph by (simp add: in_phase_def serial_def)
  from ord have cd: "rejected (trace s) = [] \<longrightarrow> called (trace s) = due (trace s)"
    unfolding in_order_def by (elim conjE)
  then have c2: "rejected (trace s) = [] \<longrightarrow>
      map fst (posted (trace s))
        = map job_id (filter (\<lambda>j. known_kind (job_type j)) (taken (trace s)))"
    by (simp add: called_def due_def)
  have c3: "\<forall>a u r b v r' c. trace s = a @ Posted u r # b @ Posted v r' # c \<longrightarrow>
          (\<exists>j b1 b2. j \<in> set (jobs (trace s)) \<and> job_id j = u
             \<and> b = b1 @ DelayStarted u # b2
             \<and> (StatusWritten u completed \<in> set b1 \<or> StatusWritten u failed \<in> set b1)
             \<and> (has_onSuccess j \<and> StatusWritten u completed \<in> set b1 \<longrightarrow>
                  ContinuationCalled u True \<in> set b1)
             \<and> (has_onError j \<and> StatusWritten u failed \<in> set b1 \<longrightarrow>
                  ContinuationCalled u False \<in> set b1)
             \<and> (\<forall>b3 x b4. b1 = b3 @ ContinuationCalled u x # b4 \<longrightarrow>
                  (\<exists>ok. ContinuationSettled u x ok \<in> set b4)))"
  proof (intro allI impI)
    fix a u r b v r' c
    assume t: "trace s = a @ Posted u r # b @ Posted v r' # c"
    with ser have "serial (a @ Posted u r # b @ Posted v r' # c)" by simp
    from serial_between_posts [OF this] obtain j b1 b2 where
      j: "j \<in> set (jobs a)" "job_id j = u" "b = b1 @ DelayStarted u # b2"
        "due_to (Called j) j b1"
      by blast
    from j(1) t have m: "j \<in> set (jobs (trace s))" by (simp add: jobs_simps)
    from j(4) j(2)
    have d1: "StatusWritten u completed \<in> set b1 \<or> StatusWritten u failed \<in> set b1"
      and d2: "has_onSuccess j \<and> StatusWritten u completed \<in> set b1 \<longrightarrow>
          ContinuationCalled u True \<in> set b1"
      and d3: "has_onError j \<and> StatusWritten u failed \<in> set b1 \<longrightarrow>
          ContinuationCalled u False \<in> set b1"
      and d4: "\<forall>b3 x b4. b1 = b3 @ ContinuationCalled u x # b4 \<longrightarrow>
          (\<exists>ok. ContinuationSettled u x ok \<in> set b4)"
      by (simp_all add: due_to_def calls_settle_def)
    show "\<exists>j b1 b2. j \<in> set (jobs (trace s)) \<and> job_id j = u
             \<and> b = b1 @ DelayStarted u # b2
             \<and> (StatusWritten u completed \<in> set b1 \<or> StatusWritten u failed \<in> set b1)
             \<and> (has_onSuccess j \<and> StatusWritten u completed \<in> set b1 \<longrightarrow>
                  ContinuationCalled u True \<in> set b1)
             \<and> (has_onError j \<and> StatusWritten u failed \<in> set b1 \<longrightarrow>
                  ContinuationCalled u False \<in> set b1)
             \<and> (\<forall>b3 x b4. b1 = b3 @ ContinuationCalled u x # b4 \<longrightarrow>
                  (\<exists>ok. ContinuationSettled u x ok \<in> set b4))"
      by (intro exI [of _ j] exI [of _ b1] exI [of _ b2] conjI)
         (fact m, fact j(2), fact j(3), fact d1, fact d2, fact d3, fact d4)
  qed
  have c4: "rejected (trace s) = [] \<and> escaped (trace s) = [] \<and> adds s = [] \<and> drains s = [] \<longrightarrow>
          queue s = [] \<and> \<not> isProcessing s
          \<and> map fst (posted (trace s))
              = map fst (filter (\<lambda>k. known_kind (snd k)) (submitted (trace s)))"
  proof (intro impI)
    assume a: "rejected (trace s) = [] \<and> escaped (trace s) = [] \<and> adds s = [] \<and> drains s = []"
    with kg have n: "\<not> isProcessing s" and q: "queue s = []"
      by (auto simp: kept_going_def)
    from ord a q have "jobs (trace s) = taken (trace s)"
      by (simp add: in_order_def taking_def)
    with c2 a have "map fst (posted (trace s))
        = map job_id (filter (\<lambda>j. known_kind (job_type j)) (jobs (trace s)))"
      by simp
    also have "\<dots> = map fst (filter (\<lambda>k. known_kind (snd k)) (submitted (trace s)))"
      by (simp add: submitted_jobs filter_map comp_def)
    finally show "queue s = [] \<and> \<not> isProcessing s
          \<and> map fst (posted (trace s))
              = map fst (filter (\<lambda>k. known_kind (snd k)) (submitted (trace s)))"
      using n q by simp
  qed
  have c5: "adds s \<noteq> [] \<or> drains s \<noteq> [] \<longrightarrow> (\<exists>l. settles l \<and> resolves l \<and> step l s \<noteq> None)"
    by (intro impI) (rule can_settle)
  have c6: "\<forall>ls' s'. list_all settles ls' \<and> run ls' s = Some s' \<longrightarrow>
      length ls' + work s' \<le> work s"
    by (auto intro: work_run)
  show ?thesis
    by (intro conjI) (fact ser, fact c2, fact c3, fact c4, fact c5, fact c6)
qed

text \<open>
  Two transfers are submitted together, the first with a success continuation, and both
  run to the end with every write resolved: they are posted in submission order, one
  call each; between the two posts the first job was written \<open>completed\<close> before its
  delay started; and after the submissions eleven promises settle, within the bound.
\<close>

theorem fifo_processing_witness:
  "\<exists>s0 s. run [Add (transfer_job ''card_to_id'' (Some returning) None) uuid1 0,
                Add (transfer_job ''card_to_card'' None None) uuid2 1]
             (PaymentQueue [] ()) = Some s0
       \<and> run [InsertDone 0, InsertDone 0,
               DbDone 0, PostDone 0 accepted, DbDone 0, ContinuationDone 0, TimerFired 0,
               DbDone 0, PostDone 0 accepted, DbDone 0, TimerFired 0] s0 = Some s
       \<and> (\<exists>l. settles l \<and> resolves l \<and> step l s0 \<noteq> None)
       \<and> 11 + work s \<le> work s0
       \<and> rejected (trace s) = [] \<and> escaped (trace s) = [] \<and> adds s = [] \<and> drains s = []
       \<and> submitted (trace s) = [(uuid1, ''card_to_id''), (uuid2, ''card_to_card'')]
       \<and> map fst (posted (trace s)) = [uuid1, uuid2]
       \<and> serial (trace s)
       \<and> (\<exists>b1 b2. [StatusWritten uuid1 completed, ContinuationCalled uuid1 True,
                     ContinuationSettled uuid1 True True, DelayStarted uuid1,
                     StatusWritten uuid2 processing] = b1 @ DelayStarted uuid1 # b2
              \<and> (StatusWritten uuid1 completed \<in> set b1 \<or> StatusWritten uuid1 failed \<in> set b1))"
proof -
  let ?adds = "[Add (transfer_job ''card_to_id'' (Some returning) None) uuid1 0,
                Add (transfer_job ''card_to_card'' None None) uuid2 1]"
  let ?rest = "[InsertDone 0, InsertDone 0,
               DbDone 0, PostDone 0 accepted, DbDone 0, ContinuationDone 0, TimerFired 0,
               DbDone 0, PostDone 0 accepted, DbDone 0, TimerFired (0::nat)]"
  let ?b = "[StatusWritten uuid1 completed, ContinuationCalled uuid1 True,
             ContinuationSettled uuid1 True True, DelayStarted uuid1,
             StatusWritten uuid2 processing]"
  have "\<exists>s0. run ?adds (PaymentQueue [] ()) = Some s0 \<and> adds s0 \<noteq> []"
    by (simp add: queue_eval transfer_job_def)
  then obtain s0 where s0: "run ?adds (PaymentQueue [] ()) = Some s0" "adds s0 \<noteq> []"
    by blast
  have "\<exists>s. run (?adds @ ?rest) (PaymentQueue [] ()) = Some s
       \<and> adds s = [] \<and> drains s = []
       \<and> trace s = [Submitted uuid1 ''card_to_id'' True False,
                     Submitted uuid2 ''card_to_card'' False False,
                     StatusWritten uuid1 processing] @
                    Posted uuid1 (TransferCard ''card-a'' (Some ''user'') ''5'') # ?b @
                    Posted uuid2 (CardPay ''card-a'' (Some ''card-b'') ''5'') #
                    [StatusWritten uuid2 completed, DelayStarted uuid2]"
    by (simp add: queue_eval transfer_job_def accepted_def formatCoinAmount_5 returning_def)
  then obtain s where s: "run (?adds @ ?rest) (PaymentQueue [] ()) = Some s"
    "adds s = []" "drains s = []"
    "trace s = [Submitted uuid1 ''card_to_id'' True False,
                     Submitted uuid2 ''card_to_card'' False False,
                     StatusWritten uuid1 processing] @
                    Posted uuid1 (TransferCard ''card-a'' (Some ''user'') ''5'') # ?b @
                    Posted uuid2 (CardPay ''card-a'' (Some ''card-b'') ''5'') #
                    [StatusWritten uuid2 completed, DelayStarted uuid2]"
    by blast
  from s(1) s0(1) have r: "run ?rest s0 = Some s"
    by (simp only: run_append option.case)
  have e: "rejected (trace s) = []" "escaped (trace s) = []"
    "submitted (trace s) = [(uuid1, ''card_to_id''), (uuid2, ''card_to_card'')]"
    by (simp_all add: s(4) rejected_def escaped_def submitted_def)
  note f0 = fifo_processing [OF s0(1)]
  note f = fifo_processing [OF s(1)]
  from f0 have "adds s0 \<noteq> [] \<or> drains s0 \<noteq> [] \<longrightarrow>
      (\<exists>l. settles l \<and> resolves l \<and> step l s0 \<noteq> None)"
    by (elim conjE)
  with s0(2) have w1: "\<exists>l. settles l \<and> resolves l \<and> step l s0 \<noteq> None" by simp
  from f0 have "\<forall>ls' s'. list_all settles ls' \<and> run ls' s0 = Some s' \<longrightarrow>
      length ls' + work s' \<le> work s0"
    by (elim conjE)
  from this [rule_format, of ?rest s] r have w2: "11 + work s \<le> work s0" by simp
  from f have w3: "serial (trace s)" by (elim conjE)
  from f have "rejected (trace s) = [] \<and> escaped (trace s) = [] \<and> adds s = [] \<and> drains s = [] \<longrightarrow>
          queue s = [] \<and> \<not> isProcessing s
          \<and> map fst (posted (trace s))
              = map fst (filter (\<lambda>k. known_kind (snd k)) (submitted (trace s)))"
    by (elim conjE)
  with e s(2,3) have w4: "map fst (posted (trace s)) = [uuid1, uuid2]"
    by (simp add: known_kind_def)
  from f have "\<forall>a u r b v r' c. trace s = a @ Posted u r # b @ Posted v r' # c \<longrightarrow>
          (\<exists>j b1 b2. j \<in> set (jobs (trace s)) \<and> job_id j = u
             \<and> b = b1 @ DelayStarted u # b2
             \<and> (StatusWritten u completed \<in> set b1 \<or> StatusWritten u failed \<in> set b1)
             \<and> (has_onSuccess j \<and> StatusWritten u completed \<in> set b1 \<longrightarrow>
                  ContinuationCalled u True \<in> set b1)
             \<and> (has_onError j \<and> StatusWritten u failed \<in> set b1 \<longrightarrow>
                  ContinuationCalled u False \<in> set b1)
             \<and> (\<forall>b3 x b4. b1 = b3 @ ContinuationCalled u x # b4 \<longrightarrow>
                  (\<exists>ok. ContinuationSettled u x ok \<in> set b4)))"
    by (elim conjE)
  from this [rule_format, OF s(4)]
  have w5: "\<exists>b1 b2. ?b = b1 @ DelayStarted uuid1 # b2
      \<and> (StatusWritten uuid1 completed \<in> set b1 \<or> StatusWritten uuid1 failed \<in> set b1)"
    by blast
  show ?thesis
    by (intro exI [of _ s0] exI [of _ s] conjI)
       (fact s0(1), fact r, fact w1, fact w2, fact e(1), fact e(2), fact s(2), fact s(3),
        fact e(3), fact w4, fact w3, fact w5)
qed

text \<open>
  C2 as stated fails: one job whose type is neither \<^verbatim>\<open>card_to_id\<close> nor \<^verbatim>\<open>card_to_card\<close>
  is submitted and processed to the end, and the service was never called.
\<close>

theorem one_job_no_call_counterexample:
  "map_option (\<lambda>s. (adds s = [], drains s = [], isProcessing s, queue s = [],
                      submitted (trace s), posted (trace s)))
     (run [Add (transfer_job ''refund'' None None) uuid1 0, InsertDone 0, DbDone 0, DbDone 0,
           TimerFired 0] (PaymentQueue [] ()))
   = Some (True, True, False, True, [(uuid1, ''refund'')], [])"
  by (simp add: queue_eval transfer_job_def submitted_def posted_def)

section \<open>Jobs of an unknown type\<close>

text \<open>
  C9: for an item whose type is neither \<^verbatim>\<open>card_to_id\<close> nor \<^verbatim>\<open>card_to_card\<close>,
  \<^verbatim>\<open>processItem\<close> throws the unknown-type error before any request is built, and the loop
  goes from the \<open>processing\<close> write straight to its \<^verbatim>\<open>catch\<close> block; and in every run, a
  submitted job of such a type (its identifier not shared with another job) is never
  posted to the service.
\<close>

theorem unknown_kind_fails_without_call:
  "(\<not> known_kind (type item) \<longrightarrow>
      processItem item = Inl (UnknownJobKind (type item))
      \<and> db_done (AwaitMarkProcessing item) s
          = Some (catch_block item (UnknownJobKind (type item))
                    (emit (StatusWritten (id' item) processing)
                       (s\<lparr>table := update_status (id' item) processing False (table s)\<rparr>))))
   \<and> (run ls (PaymentQueue rows w) = Some s' \<and> distinct (map fst (submitted (trace s')))
        \<and> (u, ty) \<in> set (submitted (trace s')) \<and> \<not> known_kind ty
        \<longrightarrow> u \<notin> fst ` set (posted (trace s')))"
proof -
  have "u \<notin> fst ` set (posted (trace s'))"
    if r: "run ls (PaymentQueue rows w) = Some s'"
      and dis: "distinct (map fst (submitted (trace s')))"
      and sub: "(u, ty) \<in> set (submitted (trace s'))" and unk: "\<not> known_kind ty"
  proof
    assume "u \<in> fst ` set (posted (trace s'))"
    then have "u \<in> set (called (trace s'))" by (simp add: called_def)
    moreover from inv_reachable [OF r] have "set (called (trace s')) \<subseteq> set (due (trace s'))"
      by (simp add: inv_def in_order_def)
    ultimately obtain j where j: "j \<in> set (taken (trace s'))" "job_id j = u"
      "known_kind (job_type j)"
      by (auto simp: due_def)
    from j(1) have "j \<in> set (jobs (trace s'))"
      by (auto simp: taken_def dest: in_set_takeD)
    with j(2) have "(u, job_type j) \<in> set (submitted (trace s'))"
      by (auto simp: submitted_jobs)
    with sub dis have "job_type j = ty" by (meson eq_key_imp_eq_value)
    with j(3) unk show False by simp
  qed
  then show ?thesis
    by (auto simp: processItem_def known_kind_def db_done_def Let_def)
qed

text \<open>
  A job of type \<^verbatim>\<open>refund\<close> between two transfers: it fails with the unknown-type error
  and only the transfers are posted.
\<close>

theorem unknown_kind_fails_without_call_witness:
  "processItem (transfer_job ''refund'' None None :: unit item) = Inl (UnknownJobKind ''refund'')
   \<and> (\<exists>s. run [Add (transfer_job ''refund'' None None) uuid1 0,
                Add (transfer_job ''card_to_id'' None None) uuid2 1,
                InsertDone 0, InsertDone 0, DbDone 0, DbDone 0, TimerFired 0,
                DbDone 0, PostDone 0 accepted, DbDone 0, TimerFired 0]
             (PaymentQueue [] ()) = Some s
          \<and> submitted (trace s) = [(uuid1, ''refund''), (uuid2, ''card_to_id'')]
          \<and> Logged uuid1 (UnknownJobKind ''refund'') \<in> set (trace s)
          \<and> uuid1 \<notin> fst ` set (posted (trace s)))"
proof -
  have k: "\<not> known_kind (type (transfer_job ''refund'' None None :: unit item))"
    by (simp add: known_kind_def transfer_job_def)
  have ty: "type (transfer_job ''refund'' None None :: unit item) = ''refund''"
    by (simp add: transfer_job_def)
  from unknown_kind_fails_without_call
    [of "transfer_job ''refund'' None None :: unit item" "PaymentQueue [] ()" "[]" "[]" "()"
      "PaymentQueue [] ()" "[]" "[]"] k
  have "processItem (transfer_job ''refund'' None None :: unit item)
      = Inl (UnknownJobKind (type (transfer_job ''refund'' None None :: unit item)))"
    by blast
  then have a: "processItem (transfer_job ''refund'' None None :: unit item)
      = Inl (UnknownJobKind ''refund'')"
    by (simp only: ty)
  have "\<exists>s. run [Add (transfer_job ''refund'' None None) uuid1 0,
                Add (transfer_job ''card_to_id'' None None) uuid2 1,
                InsertDone 0, InsertDone 0, DbDone 0, DbDone 0, TimerFired 0,
                DbDone 0, PostDone 0 accepted, DbDone 0, TimerFired 0]
             (PaymentQueue [] ()) = Some s
          \<and> submitted (trace s) = [(uuid1, ''refund''), (uuid2, ''card_to_id'')]
          \<and> Logged uuid1 (UnknownJobKind ''refund'') \<in> set (trace s)"
    by (simp add: queue_eval transfer_job_def accepted_def formatCoinAmount_5 submitted_def)
  then obtain s where s: "run [Add (transfer_job ''refund'' None None) uuid1 0,
                Add (transfer_job ''card_to_id'' None None) uuid2 1,
                InsertDone 0, InsertDone 0, DbDone 0, DbDone 0, TimerFired 0,
                DbDone 0, PostDone 0 accepted, DbDone 0, TimerFired 0]
             (PaymentQueue [] ()) = Some s"
    "submitted (trace s) = [(uuid1, ''refund''), (uuid2, ''card_to_id'')]"
    "Logged uuid1 (UnknownJobKind ''refund'') \<in> set (trace s)"
    by blast
  have d: "distinct (map fst (submitted (trace s)))"
    by (simp add: s(2) uuid1_neq_uuid2)
  have m: "(uuid1, ''refund'') \<in> set (submitted (trace s))"
    by (simp add: s(2))
  have n: "\<not> known_kind ''refund''" by (simp add: known_kind_def)
  from unknown_kind_fails_without_call
    [of _ _ _ "[]" "()" s uuid1 "''refund''"]
  have "run [Add (transfer_job ''refund'' None None) uuid1 0,
                Add (transfer_job ''card_to_id'' None None) uuid2 1,
                InsertDone 0, InsertDone 0, DbDone 0, DbDone 0, TimerFired 0,
                DbDone 0, PostDone 0 accepted, DbDone 0, TimerFired 0]
             (PaymentQueue [] ()) = Some s \<and> distinct (map fst (submitted (trace s)))
        \<and> (uuid1, ''refund'') \<in> set (submitted (trace s)) \<and> \<not> known_kind ''refund''
        \<longrightarrow> uuid1 \<notin> fst ` set (posted (trace s))"
    by (rule conjunct2)
  with s(1) d m n have b: "uuid1 \<notin> fst ` set (posted (trace s))" by simp
  show ?thesis
    by (intro exI [of _ s] conjI) (fact a, fact s(1), fact s(2), fact s(3), fact b)
qed

end
